theory Spec2Isabelle
  imports Main
begin

section \<open>Python values\<close>

text \<open>
  A Python \<^verbatim>\<open>str\<close> is a sequence of Unicode code points, so it is modelled as a list
  of natural numbers (the code points). \<open>py\<close> turns an ASCII literal into such a string.
\<close>

type_synonym pystr = "nat list"

definition py :: "string \<Rightarrow> pystr" where
  "py cs = map of_char cs"

text \<open>
  The values \<^verbatim>\<open>json.loads\<close> builds: \<^verbatim>\<open>None\<close>, \<^verbatim>\<open>bool\<close>, \<^verbatim>\<open>int\<close>,
  \<^verbatim>\<open>float\<close>, \<^verbatim>\<open>str\<close>, \<^verbatim>\<open>list\<close> and \<^verbatim>\<open>dict\<close>. A dict keeps its keys in
  insertion order, so it is an association list (with distinct keys). The type of floats
  is a parameter: binary floating point is not modelled, see \<open>float_hooks\<close>.
\<close>

datatype 'f json =
    JNull
  | JBool bool
  | JInt int
  | JFloat 'f
  | JStr pystr
  | JList "'f json list"
  | JDict "(pystr \<times> 'f json) list"

text \<open>
  The exceptions the module can let escape. Slicing a dict raises \<^verbatim>\<open>TypeError\<close>
  (unhashable slice) up to Python 3.11 and \<^verbatim>\<open>KeyError\<close> from 3.12 on, hence its own
  constructor. \<open>RequestError\<close> stands for whatever the request helper raises.
\<close>

datatype exn = TypeError | KeyError | DictSliceError | RequestError pystr

section \<open>The json module: hooks for floats\<close>

text \<open>
  \<^verbatim>\<open>json.loads\<close> converts the text of a number with a fraction or an exponent with its
  hook \<^verbatim>\<open>parse_float\<close> (by default \<^verbatim>\<open>float\<close>) and the names \<^verbatim>\<open>NaN\<close>,
  \<^verbatim>\<open>Infinity\<close>, \<^verbatim>\<open>-Infinity\<close> with \<^verbatim>\<open>parse_constant\<close>; \<^verbatim>\<open>json.dumps\<close> prints
  a float with \<^verbatim>\<open>floatstr\<close> (\<^verbatim>\<open>float.__repr__\<close>, and the three names). These three
  functions are parameters of the model.
\<close>

record 'f float_hooks =
  parse_float :: "pystr \<Rightarrow> 'f"
  parse_constant :: "pystr \<Rightarrow> 'f"
  floatstr :: "'f \<Rightarrow> pystr"

section \<open>json.dumps(data, indent=2)\<close>

text \<open>\<^verbatim>\<open>'{0:04x}'.format(n)\<close> for \<open>n < 0x10000\<close>.\<close>

definition hexdigit :: "nat \<Rightarrow> nat" where
  "hexdigit d = (if d < 10 then 0x30 + d else 0x57 + d)"

definition hex4 :: "nat \<Rightarrow> pystr" where
  "hex4 n = [hexdigit (n div 4096 mod 16), hexdigit (n div 256 mod 16),
             hexdigit (n div 16 mod 16), hexdigit (n mod 16)]"

text \<open>
  \<^verbatim>\<open>py_encode_basestring_ascii\<close>: the replacement of one character matched by
  \<^verbatim>\<open>ESCAPE_ASCII = ([\\"]|[^\ -~])\<close>; every other character stands for itself.
  The surrogates are \<^verbatim>\<open>0xd800 | ((n >> 10) & 0x3ff)\<close> and \<^verbatim>\<open>0xdc00 | (n & 0x3ff)\<close>
  for \<^verbatim>\<open>n = ord(c) - 0x10000\<close>.
\<close>

definition escape_char :: "nat \<Rightarrow> pystr" where
  "escape_char c =
     (if c = 0x5c then [0x5c, 0x5c]
      else if c = 0x22 then [0x5c, 0x22]
      else if c = 0x08 then [0x5c, 0x62]
      else if c = 0x0c then [0x5c, 0x66]
      else if c = 0x0a then [0x5c, 0x6e]
      else if c = 0x0d then [0x5c, 0x72]
      else if c = 0x09 then [0x5c, 0x74]
      else if 0x20 \<le> c \<and> c \<le> 0x7e then [c]
      else if c < 0x10000 then [0x5c, 0x75] @ hex4 c
      else [0x5c, 0x75] @ hex4 (0xd800 + (c - 0x10000) div 1024 mod 1024)
         @ [0x5c, 0x75] @ hex4 (0xdc00 + (c - 0x10000) mod 1024))"

definition encode_basestring_ascii :: "pystr \<Rightarrow> pystr" where
  "encode_basestring_ascii s = 0x22 # concat (map escape_char s) @ [0x22]"

text \<open>\<^verbatim>\<open>int.__repr__\<close>.\<close>

function digits :: "nat \<Rightarrow> pystr" where
  "digits n = (if n < 10 then [0x30 + n] else digits (n div 10) @ [0x30 + n mod 10])"
  by pat_completeness auto
termination
  by (relation "measure id") auto

declare digits.simps [simp del]

definition int_repr :: "int \<Rightarrow> pystr" where
  "int_repr i = (if i < 0 then 0x2d # digits (nat (- i)) else digits (nat i))"

text \<open>
  \<^verbatim>\<open>_make_iterencode\<close> with \<^verbatim>\<open>indent=2\<close>, separators \<^verbatim>\<open>(',', ': ')\<close> and
  \<^verbatim>\<open>ensure_ascii=True\<close>. \<open>lvl\<close> is \<^verbatim>\<open>_current_indent_level\<close>.
\<close>

definition newline_indent :: "nat \<Rightarrow> pystr" where
  "newline_indent lvl = 0x0a # replicate (2 * lvl) 0x20"

fun iterencode :: "'f float_hooks \<Rightarrow> nat \<Rightarrow> 'f json \<Rightarrow> pystr"
and iterencode_list :: "'f float_hooks \<Rightarrow> nat \<Rightarrow> 'f json list \<Rightarrow> pystr"
and iterencode_dict :: "'f float_hooks \<Rightarrow> nat \<Rightarrow> (pystr \<times> 'f json) list \<Rightarrow> pystr"
where
  "iterencode h lvl JNull = py ''null''"
| "iterencode h lvl (JBool b) = (if b then py ''true'' else py ''false'')"
| "iterencode h lvl (JInt i) = int_repr i"
| "iterencode h lvl (JFloat f) = floatstr h f"
| "iterencode h lvl (JStr s) = encode_basestring_ascii s"
| "iterencode h lvl (JList []) = py ''[]''"
| "iterencode h lvl (JList (v # vs)) =
     0x5b # newline_indent (Suc lvl) @ iterencode_list h (Suc lvl) (v # vs)
       @ newline_indent lvl @ [0x5d]"
| "iterencode h lvl (JDict []) = py ''{}''"
| "iterencode h lvl (JDict (kv # kvs)) =
     0x7b # newline_indent (Suc lvl) @ iterencode_dict h (Suc lvl) (kv # kvs)
       @ newline_indent lvl @ [0x7d]"
| "iterencode_list h lvl [] = []"
| "iterencode_list h lvl [v] = iterencode h lvl v"
| "iterencode_list h lvl (v # w # vs) =
     iterencode h lvl v @ 0x2c # newline_indent lvl @ iterencode_list h lvl (w # vs)"
| "iterencode_dict h lvl [] = []"
| "iterencode_dict h lvl [(k, v)] =
     encode_basestring_ascii k @ [0x3a, 0x20] @ iterencode h lvl v"
| "iterencode_dict h lvl ((k, v) # kv # kvs) =
     encode_basestring_ascii k @ [0x3a, 0x20] @ iterencode h lvl v
       @ 0x2c # newline_indent lvl @ iterencode_dict h lvl (kv # kvs)"

definition json_dumps :: "'f float_hooks \<Rightarrow> 'f json \<Rightarrow> pystr" where
  "json_dumps h data = iterencode h 0 data"

section \<open>json.loads\<close>

text \<open>
  The decoder of CPython's accelerated scanner (the default), with \<^verbatim>\<open>strict=True\<close>.
  The text still to be read is passed along instead of an index into it.
  The interpreter's recursion limit and its limit on the digits of an integer are not
  modelled.
\<close>

definition is_ws :: "nat \<Rightarrow> bool" where
  "is_ws c = (c = 0x20 \<or> c = 0x09 \<or> c = 0x0a \<or> c = 0x0d)"

definition skip_ws :: "pystr \<Rightarrow> pystr" where
  "skip_ws s = dropWhile is_ws s"

definition is_digit :: "nat \<Rightarrow> bool" where
  "is_digit c = (0x30 \<le> c \<and> c \<le> 0x39)"

definition hexval :: "nat \<Rightarrow> nat option" where
  "hexval c =
     (if 0x30 \<le> c \<and> c \<le> 0x39 then Some (c - 0x30)
      else if 0x61 \<le> c \<and> c \<le> 0x66 then Some (c - 0x57)
      else if 0x41 \<le> c \<and> c \<le> 0x46 then Some (c - 0x37)
      else None)"

text \<open>The four hexadecimal digits after \<^verbatim>\<open>\u\<close>.\<close>

definition decode_uXXXX :: "pystr \<Rightarrow> nat option" where
  "decode_uXXXX s =
     (case s of
        a # b # c # d # _ \<Rightarrow>
          (case (hexval a, hexval b, hexval c, hexval d) of
             (Some x, Some y, Some z, Some w) \<Rightarrow> Some (((x * 16 + y) * 16 + z) * 16 + w)
           | _ \<Rightarrow> None)
      | _ \<Rightarrow> None)"

text \<open>The table \<^verbatim>\<open>BACKSLASH\<close> of the one-letter escapes.\<close>

definition backslash :: "nat \<Rightarrow> nat option" where
  "backslash e =
     (if e = 0x22 then Some 0x22
      else if e = 0x5c then Some 0x5c
      else if e = 0x2f then Some 0x2f
      else if e = 0x62 then Some 0x08
      else if e = 0x66 then Some 0x0c
      else if e = 0x6e then Some 0x0a
      else if e = 0x72 then Some 0x0d
      else if e = 0x74 then Some 0x09
      else None)"

definition prepend :: "nat \<Rightarrow> (pystr \<times> pystr) option \<Rightarrow> (pystr \<times> pystr) option" where
  "prepend c r = (case r of None \<Rightarrow> None | Some (cs, rest) \<Rightarrow> Some (c # cs, rest))"

text \<open>
  \<^verbatim>\<open>scanstring\<close>, called on the text after the opening quote: the decoded string and
  the text after the closing quote. A high surrogate escape followed by a low surrogate
  escape is one code point.
\<close>

function scanstring :: "pystr \<Rightarrow> (pystr \<times> pystr) option" where
  "scanstring [] = None"
| "scanstring (c # s) =
     (if c = 0x22 then Some ([], s)
      else if c = 0x5c then
        (case s of
           [] \<Rightarrow> None
         | e # s' \<Rightarrow>
             if e = 0x75 then
               (case decode_uXXXX s' of
                  None \<Rightarrow> None
                | Some uni \<Rightarrow>
                    if 0xd800 \<le> uni \<and> uni \<le> 0xdbff \<and> take 2 (drop 4 s') = [0x5c, 0x75] then
                      (case decode_uXXXX (drop 6 s') of
                         None \<Rightarrow> None
                       | Some uni2 \<Rightarrow>
                           if 0xdc00 \<le> uni2 \<and> uni2 \<le> 0xdfff
                           then prepend (0x10000 + ((uni - 0xd800) * 1024 + (uni2 - 0xdc00)))
                                  (scanstring (drop 10 s'))
                           else prepend uni (scanstring (drop 4 s')))
                    else prepend uni (scanstring (drop 4 s')))
             else
               (case backslash e of
                  None \<Rightarrow> None
                | Some ch \<Rightarrow> prepend ch (scanstring s')))
      else if c < 0x20 then None
      else prepend c (scanstring s))"
  by pat_completeness auto
termination
  by (relation "measure length") auto

declare scanstring.simps(2) [simp del]

text \<open>
  \<^verbatim>\<open>_match_number\<close>: whether the number is a float, its text, and the text after it.
  The grammar is \<^verbatim>\<open>-?(0|[1-9][0-9]*)(\.[0-9]+)?([eE][-+]?[0-9]+)?\<close>.
\<close>

definition match_exp :: "pystr \<Rightarrow> pystr" where
  "match_exp s =
     (case s of
        [] \<Rightarrow> []
      | e # t \<Rightarrow>
          if e = 0x65 \<or> e = 0x45 then
            (let sg = (if take 1 t = [0x2b] \<or> take 1 t = [0x2d] then take 1 t else []);
                 ds = takeWhile is_digit (drop (length sg) t)
             in if ds = [] then [] else e # sg @ ds)
          else [])"

definition match_frac :: "pystr \<Rightarrow> pystr" where
  "match_frac s =
     (case s of
        p # f # t \<Rightarrow> if p = 0x2e \<and> is_digit f then p # f # takeWhile is_digit t else []
      | _ \<Rightarrow> [])"

definition match_number :: "pystr \<Rightarrow> (bool \<times> pystr \<times> pystr) option" where
  "match_number s =
     (let sg = (if take 1 s = [0x2d] then [0x2d] else []);
          s1 = drop (length sg) s
      in case s1 of
           [] \<Rightarrow> None
         | d # s2 \<Rightarrow>
             if \<not> is_digit d then None
             else
               let ip = (if d = 0x30 then [d] else d # takeWhile is_digit s2);
                   s3 = drop (length ip) s1;
                   frac = match_frac s3;
                   s4 = drop (length frac) s3;
                   ex = match_exp s4;
                   s5 = drop (length ex) s4
               in Some (frac \<noteq> [] \<or> ex \<noteq> [], sg @ ip @ frac @ ex, s5))"

text \<open>\<^verbatim>\<open>int(text)\<close> on the text of an integer of that grammar.\<close>

definition nat_of_digits :: "pystr \<Rightarrow> nat" where
  "nat_of_digits ds = foldl (\<lambda>a d. a * 10 + (d - 0x30)) 0 ds"

definition int_of_text :: "pystr \<Rightarrow> int" where
  "int_of_text t =
     (if take 1 t = [0x2d] then - int (nat_of_digits (drop 1 t)) else int (nat_of_digits t))"

text \<open>
  \<^verbatim>\<open>dict(pairs)\<close>: a key keeps the place of its first occurrence and the value of its
  last one. \<open>dict_set\<close> is also \<^verbatim>\<open>d[k] = v\<close>.
\<close>

fun dict_set :: "(pystr \<times> 'v) list \<Rightarrow> pystr \<Rightarrow> 'v \<Rightarrow> (pystr \<times> 'v) list" where
  "dict_set [] k v = [(k, v)]"
| "dict_set ((k', v') # d) k v = (if k' = k then (k, v) # d else (k', v') # dict_set d k v)"

definition dict_of_pairs :: "(pystr \<times> 'v) list \<Rightarrow> (pystr \<times> 'v) list" where
  "dict_of_pairs ps = foldl (\<lambda>d (k, v). dict_set d k v) [] ps"

text \<open>
  \<^verbatim>\<open>scan_once\<close>, \<^verbatim>\<open>JSONArray\<close> and \<^verbatim>\<open>JSONObject\<close>. They call each other, so
  the model bounds the depth of the calls by its first argument; \<open>json_loads\<close> passes
  a bound that no text reaches. \<open>parse_items\<close> starts at a value of the array,
  \<open>parse_members\<close> after the opening quote of a key.
\<close>

fun scan_once :: "'f float_hooks \<Rightarrow> nat \<Rightarrow> pystr \<Rightarrow> ('f json \<times> pystr) option"
and parse_items :: "'f float_hooks \<Rightarrow> nat \<Rightarrow> pystr \<Rightarrow> ('f json list \<times> pystr) option"
and parse_members ::
  "'f float_hooks \<Rightarrow> nat \<Rightarrow> pystr \<Rightarrow> ((pystr \<times> 'f json) list \<times> pystr) option"
where
  "scan_once h 0 s = None"
| "scan_once h (Suc n) s =
     (case s of
        [] \<Rightarrow> None
      | c # t \<Rightarrow>
          if c = 0x22 then
            (case scanstring t of None \<Rightarrow> None | Some (str, r) \<Rightarrow> Some (JStr str, r))
          else if c = 0x7b then
            (case skip_ws t of
               [] \<Rightarrow> None
             | c' # r \<Rightarrow>
                 if c' = 0x7d then Some (JDict [], r)
                 else if c' = 0x22 then
                   (case parse_members h n r of
                      None \<Rightarrow> None
                    | Some (pairs, r') \<Rightarrow> Some (JDict (dict_of_pairs pairs), r'))
                 else None)
          else if c = 0x5b then
            (case skip_ws t of
               [] \<Rightarrow> None
             | c' # r \<Rightarrow>
                 if c' = 0x5d then Some (JList [], r)
                 else
                   (case parse_items h n (c' # r) of
                      None \<Rightarrow> None
                    | Some (values, r') \<Rightarrow> Some (JList values, r')))
          else if take 4 s = py ''null'' then Some (JNull, drop 4 s)
          else if take 4 s = py ''true'' then Some (JBool True, drop 4 s)
          else if take 5 s = py ''false'' then Some (JBool False, drop 5 s)
          else
            (case match_number s of
               Some (is_float, text, r) \<Rightarrow>
                 Some (if is_float then JFloat (parse_float h text) else JInt (int_of_text text), r)
             | None \<Rightarrow>
                 if take 3 s = py ''NaN'' then
                   Some (JFloat (parse_constant h (py ''NaN'')), drop 3 s)
                 else if take 8 s = py ''Infinity'' then
                   Some (JFloat (parse_constant h (py ''Infinity'')), drop 8 s)
                 else if take 9 s = py ''-Infinity'' then
                   Some (JFloat (parse_constant h (py ''-Infinity'')), drop 9 s)
                 else None))"
| "parse_items h 0 s = None"
| "parse_items h (Suc n) s =
     (case scan_once h n s of
        None \<Rightarrow> None
      | Some (v, r) \<Rightarrow>
          (case skip_ws r of
             [] \<Rightarrow> None
           | c # r' \<Rightarrow>
               if c = 0x5d then Some ([v], r')
               else if c = 0x2c then
                 (case parse_items h n (skip_ws r') of
                    None \<Rightarrow> None
                  | Some (vs, r'') \<Rightarrow> Some (v # vs, r''))
               else None))"
| "parse_members h 0 s = None"
| "parse_members h (Suc n) s =
     (case scanstring s of
        None \<Rightarrow> None
      | Some (key, r) \<Rightarrow>
          (case skip_ws r of
             [] \<Rightarrow> None
           | c # r1 \<Rightarrow>
               if c \<noteq> 0x3a then None
               else
                 (case scan_once h n (skip_ws r1) of
                    None \<Rightarrow> None
                  | Some (v, r2) \<Rightarrow>
                      (case skip_ws r2 of
                         [] \<Rightarrow> None
                       | c' # r3 \<Rightarrow>
                           if c' = 0x7d then Some ([(key, v)], r3)
                           else if c' = 0x2c then
                             (case skip_ws r3 of
                                [] \<Rightarrow> None
                              | q # r4 \<Rightarrow>
                                  if q \<noteq> 0x22 then None
                                  else
                                    (case parse_members h n r4 of
                                       None \<Rightarrow> None
                                     | Some (kvs, r5) \<Rightarrow> Some ((key, v) # kvs, r5)))
                           else None))))"

text \<open>
  \<^verbatim>\<open>json.loads\<close> on a \<^verbatim>\<open>str\<close>: \<open>None\<close> is \<^verbatim>\<open>JSONDecodeError\<close>. White space
  may surround the value; anything else after it is "Extra data".
\<close>

definition json_loads :: "'f float_hooks \<Rightarrow> pystr \<Rightarrow> 'f json option" where
  "json_loads h s =
     (case scan_once h (Suc (length s)) (skip_ws s) of
        None \<Rightarrow> None
      | Some (data, r) \<Rightarrow> if skip_ws r = [] then Some data else None)"

section \<open>The operations of Python the trimmer applies to the parsed value\<close>

text \<open>
  \<^verbatim>\<open>key in data\<close>: membership among the keys of a dict, among the elements of a list,
  the substring test on a str; \<^verbatim>\<open>None\<close>, a bool, an int and a float are not iterable
  and the test raises \<^verbatim>\<open>TypeError\<close>.
\<close>

primrec is_substring :: "pystr \<Rightarrow> pystr \<Rightarrow> bool" where
  "is_substring key [] = (key = [])"
| "is_substring key (c # s) = (take (length key) (c # s) = key \<or> is_substring key s)"

fun contains :: "pystr \<Rightarrow> 'f json \<Rightarrow> exn + bool" where
  "contains key (JDict d) = Inr (key \<in> set (map fst d))"
| "contains key (JList xs) = Inr (JStr key \<in> set xs)"
| "contains key (JStr s) = Inr (is_substring key s)"
| "contains key _ = Inl TypeError"

text \<open>
  \<^verbatim>\<open>data[key]\<close> with a str key: the value of the key in a dict (\<^verbatim>\<open>KeyError\<close> when it
  is absent); a list and a str take integer indices only, and the other values are not
  subscriptable.
\<close>

fun getitem :: "'f json \<Rightarrow> pystr \<Rightarrow> exn + 'f json" where
  "getitem (JDict d) key = (case map_of d key of None \<Rightarrow> Inl KeyError | Some v \<Rightarrow> Inr v)"
| "getitem _ key = Inl TypeError"

text \<open>\<^verbatim>\<open>value[:limit]\<close>: the first entries of a list, the first characters of a str.\<close>

fun slice_to :: "nat \<Rightarrow> 'f json \<Rightarrow> exn + 'f json" where
  "slice_to limit (JList xs) = Inr (JList (take limit xs))"
| "slice_to limit (JStr s) = Inr (JStr (take limit s))"
| "slice_to limit (JDict d) = Inl DictSliceError"
| "slice_to limit _ = Inl TypeError"

text \<open>\<^verbatim>\<open>data[key] = value\<close> with a str key.\<close>

fun setitem :: "'f json \<Rightarrow> pystr \<Rightarrow> 'f json \<Rightarrow> exn + 'f json" where
  "setitem (JDict d) key value = Inr (JDict (dict_set d key value))"
| "setitem _ key value = Inl TypeError"

section \<open>The report trimmer\<close>

definition MAX_ANNUAL_REPORTS :: nat where
  "MAX_ANNUAL_REPORTS = 2"

definition MAX_QUARTERLY_REPORTS :: nat where
  "MAX_QUARTERLY_REPORTS = 4"

text \<open>
  One of the two statements
  \<^verbatim>\<open>if key in data: data[key] = data[key][:limit]\<close>.
\<close>

definition trim_field :: "pystr \<Rightarrow> nat \<Rightarrow> 'f json \<Rightarrow> exn + 'f json" where
  "trim_field key limit data =
     (case contains key data of
        Inl e \<Rightarrow> Inl e
      | Inr False \<Rightarrow> Inr data
      | Inr True \<Rightarrow>
          (case getitem data key of
             Inl e \<Rightarrow> Inl e
           | Inr reports \<Rightarrow>
               (case slice_to limit reports of
                  Inl e \<Rightarrow> Inl e
                | Inr kept \<Rightarrow> setitem data key kept)))"

text \<open>
  \<^verbatim>\<open>_trim_financial_reports\<close>. Only \<^verbatim>\<open>json.loads\<close> is inside the \<^verbatim>\<open>try\<close>; an
  exception of the statements after it leaves the function (\<open>Inl\<close>).
\<close>

definition trim_financial_reports :: "'f float_hooks \<Rightarrow> pystr \<Rightarrow> exn + pystr" where
  "trim_financial_reports h response_text =
     (case json_loads h response_text of
        None \<Rightarrow> Inr response_text
      | Some data \<Rightarrow>
          (case trim_field (py ''annualReports'') MAX_ANNUAL_REPORTS data of
             Inl e \<Rightarrow> Inl e
           | Inr data1 \<Rightarrow>
               (case trim_field (py ''quarterlyReports'') MAX_QUARTERLY_REPORTS data1 of
                  Inl e \<Rightarrow> Inl e
                | Inr data2 \<Rightarrow> Inr (json_dumps h data2))))"

section \<open>The retrieval functions\<close>

text \<open>
  Modelled from the spec: the request helper \<^verbatim>\<open>_make_api_request\<close> of
  \<^verbatim>\<open>alpha_vantage_common\<close> takes a report-type identifier and a parameter mapping,
  performs the request and returns the raw response body as text, or raises. The answer
  of the provider is the parameter \<open>respond\<close>; the requests made are recorded in a log,
  which is the state the functions pass along.
\<close>

type_synonym params = "(pystr \<times> pystr) list"

type_synonym request = "pystr \<times> params"

type_synonym provider = "pystr \<Rightarrow> params \<Rightarrow> exn + pystr"

definition make_api_request ::
  "provider \<Rightarrow> pystr \<Rightarrow> params \<Rightarrow> request list \<Rightarrow> (exn + pystr) \<times> request list" where
  "make_api_request respond function_name ps log =
     (respond function_name ps, log @ [(function_name, ps)])"

definition get_fundamentals ::
  "provider \<Rightarrow> pystr \<Rightarrow> pystr option \<Rightarrow> request list \<Rightarrow> (exn + pystr) \<times> request list" where
  "get_fundamentals respond ticker curr_date log =
     (let ps = [(py ''symbol'', ticker)]
      in make_api_request respond (py ''OVERVIEW'') ps log)"

text \<open>The three other functions trim what the helper returns.\<close>

definition trimmed ::
  "'f float_hooks \<Rightarrow> (exn + pystr) \<times> request list \<Rightarrow> (exn + pystr) \<times> request list" where
  "trimmed h r =
     (case r of
        (Inl e, log) \<Rightarrow> (Inl e, log)
      | (Inr text, log) \<Rightarrow> (trim_financial_reports h text, log))"

definition get_balance_sheet ::
  "'f float_hooks \<Rightarrow> provider \<Rightarrow> pystr \<Rightarrow> pystr \<Rightarrow> pystr option \<Rightarrow> request list
     \<Rightarrow> (exn + pystr) \<times> request list" where
  "get_balance_sheet h respond ticker freq curr_date log =
     (let ps = [(py ''symbol'', ticker)]
      in trimmed h (make_api_request respond (py ''BALANCE_SHEET'') ps log))"

definition get_cashflow ::
  "'f float_hooks \<Rightarrow> provider \<Rightarrow> pystr \<Rightarrow> pystr \<Rightarrow> pystr option \<Rightarrow> request list
     \<Rightarrow> (exn + pystr) \<times> request list" where
  "get_cashflow h respond ticker freq curr_date log =
     (let ps = [(py ''symbol'', ticker)]
      in trimmed h (make_api_request respond (py ''CASH_FLOW'') ps log))"

definition get_income_statement ::
  "'f float_hooks \<Rightarrow> provider \<Rightarrow> pystr \<Rightarrow> pystr \<Rightarrow> pystr option \<Rightarrow> request list
     \<Rightarrow> (exn + pystr) \<times> request list" where
  "get_income_statement h respond ticker freq curr_date log =
     (let ps = [(py ''symbol'', ticker)]
      in trimmed h (make_api_request respond (py ''INCOME_STATEMENT'') ps log))"

section \<open>Floats kept as their text\<close>

text \<open>
  An instance of the hooks on which the definitions can be evaluated: a float is
  represented by the text that denotes it, as \<^verbatim>\<open>json.loads(s, parse_float=str)\<close> does.
\<close>

definition text_floats :: "pystr float_hooks" where
  "text_floats = \<lparr>parse_float = (\<lambda>t. t), parse_constant = (\<lambda>t. t), floatstr = (\<lambda>f. f)\<rparr>"

section \<open>Vocabulary of the properties\<close>

text \<open>\<^verbatim>\<open>str.isascii\<close>.\<close>

definition is_ascii :: "pystr \<Rightarrow> bool" where
  "is_ascii s = list_all (\<lambda>c. c < 0x80) s"



text \<open>The two halves of a surrogate pair.\<close>

definition is_high :: "nat \<Rightarrow> bool" where
  "is_high c = (0xd800 \<le> c \<and> c \<le> 0xdbff)"

definition is_low :: "nat \<Rightarrow> bool" where
  "is_low c = (0xdc00 \<le> c \<and> c \<le> 0xdfff)"

text \<open>
  A text of Unicode scalar values: code points below \<open>0x110000\<close>, none of them a
  surrogate. A response decoded from UTF-8 is such a text.
\<close>

definition scalar_text :: "pystr \<Rightarrow> bool" where
  "scalar_text s = list_all (\<lambda>c. c < 0x110000 \<and> \<not> is_high c \<and> \<not> is_low c) s"

text \<open>
  The strings that \<^verbatim>\<open>json.loads\<close> reads back from what \<^verbatim>\<open>json.dumps\<close> prints for
  them: code points below \<open>0x110000\<close>, no high surrogate directly followed by a low one
  (the two would be printed as two escapes, and read as one character).
\<close>

fun str_reads_back :: "pystr \<Rightarrow> bool" where
  "str_reads_back [] = True"
| "str_reads_back [c] = (c < 0x110000)"
| "str_reads_back (c # d # cs) =
     (c < 0x110000 \<and> \<not> (is_high c \<and> is_low d) \<and> str_reads_back (d # cs))"

text \<open>The text of a string from some character on, with what follows the string.\<close>

definition str_tail :: "pystr \<Rightarrow> pystr \<Rightarrow> pystr" where
  "str_tail cs rest = concat (map escape_char cs) @ 0x22 # rest"

text \<open>What follows a value in the output of \<^verbatim>\<open>json.dumps\<close>: nothing, a comma or a newline.\<close>

definition value_end :: "pystr \<Rightarrow> bool" where
  "value_end rest = (case rest of [] \<Rightarrow> True | c # _ \<Rightarrow> c = 0x2c \<or> c = 0x0a)"

text \<open>
  A float that is printed as the text of a number with a fraction or an exponent, or as
  one of the three names, and is the float that text denotes. \<^verbatim>\<open>float.__repr__\<close> and
  \<^verbatim>\<open>float\<close> have this property.
\<close>

definition float_reads_back :: "'f float_hooks \<Rightarrow> 'f \<Rightarrow> bool" where
  "float_reads_back h f =
     (let t = floatstr h f
      in (match_number t = Some (True, t, []) \<and> parse_float h t = f)
         \<or> ((t = py ''NaN'' \<or> t = py ''Infinity'' \<or> t = py ''-Infinity'')
             \<and> parse_constant h t = f))"

text \<open>The values \<^verbatim>\<open>json.loads\<close> reads back from their serialization.\<close>

fun reads_back :: "'f float_hooks \<Rightarrow> 'f json \<Rightarrow> bool"
and reads_back_list :: "'f float_hooks \<Rightarrow> 'f json list \<Rightarrow> bool"
and reads_back_dict :: "'f float_hooks \<Rightarrow> (pystr \<times> 'f json) list \<Rightarrow> bool"
where
  "reads_back h JNull = True"
| "reads_back h (JBool b) = True"
| "reads_back h (JInt i) = True"
| "reads_back h (JFloat f) = float_reads_back h f"
| "reads_back h (JStr s) = str_reads_back s"
| "reads_back h (JList vs) = reads_back_list h vs"
| "reads_back h (JDict d) = (distinct (map fst d) \<and> reads_back_dict h d)"
| "reads_back_list h [] = True"
| "reads_back_list h (v # vs) = (reads_back h v \<and> reads_back_list h vs)"
| "reads_back_dict h [] = True"
| "reads_back_dict h ((k, v) # d) = (str_reads_back k \<and> reads_back h v \<and> reads_back_dict h d)"

text \<open>A bound on the depth of the calls of the decoder on the text of a value.\<close>

fun fuel :: "'f json \<Rightarrow> nat"
and fuel_list :: "'f json list \<Rightarrow> nat"
and fuel_dict :: "(pystr \<times> 'f json) list \<Rightarrow> nat"
where
  "fuel (JList vs) = Suc (fuel_list vs)"
| "fuel (JDict d) = Suc (fuel_dict d)"
| "fuel _ = Suc 0"
| "fuel_list [] = 0"
| "fuel_list (v # vs) = Suc (fuel v + fuel_list vs)"
| "fuel_dict [] = 0"
| "fuel_dict ((k, v) # d) = Suc (fuel v + fuel_dict d)"

section \<open>Dicts and the statements of the trimmer\<close>

lemma map_of_dict_set: "map_of (dict_set d k v) = (map_of d)(k \<mapsto> v)"
  by (induction d) (auto simp: fun_eq_iff)

lemma keys_dict_set:
  "map fst (dict_set d k v) = (if k \<in> set (map fst d) then map fst d else map fst d @ [k])"
  by (induction d) force+

lemma names_differ: "py ''annualReports'' \<noteq> py ''quarterlyReports''"
  by (simp add: py_def)

lemma trim_field_dict:
  "trim_field key limit (JDict d) =
     (case map_of d key of
        None \<Rightarrow> Inr (JDict d)
      | Some v \<Rightarrow>
          (case slice_to limit v of
             Inl e \<Rightarrow> Inl e
           | Inr w \<Rightarrow> Inr (JDict (dict_set d key w))))"
proof (cases "map_of d key")
  case None
  then have "key \<notin> fst ` set d" by (simp add: map_of_eq_None_iff)
  with None show ?thesis by (simp add: trim_field_def)
next
  case (Some v)
  then have "key \<in> fst ` set d" by (metis map_of_eq_None_iff option.distinct(1))
  with Some show ?thesis by (simp add: trim_field_def split: sum.splits)
qed

lemma trim_field_list:
  "trim_field key limit (JList xs) =
     (if JStr key \<in> set xs then Inl TypeError else Inr (JList xs))"
  by (simp add: trim_field_def)

lemma trim_field_str:
  "trim_field key limit (JStr t) =
     (if is_substring key t then Inl TypeError else Inr (JStr t))"
  by (simp add: trim_field_def)

lemma trim_field_scalar:
  "trim_field key limit JNull = Inl TypeError"
  "trim_field key limit (JBool b) = Inl TypeError"
  "trim_field key limit (JInt i) = Inl TypeError"
  "trim_field key limit (JFloat f) = Inl TypeError"
  by (simp_all add: trim_field_def)

section \<open>Parse failure\<close>



section \<open>When the trimmer returns\<close>




section \<open>Values that are not objects\<close>




section \<open>The retrieval functions\<close>

text \<open>
  C7. \<^verbatim>\<open>get_fundamentals\<close> makes one request, \<^verbatim>\<open>OVERVIEW\<close> with the parameters
  \<^verbatim>\<open>{"symbol": ticker}\<close>, and returns what the helper returns, whatever it contains:
  the trimmer is not applied.
\<close>

theorem get_fundamentals_raw:
  "get_fundamentals respond ticker curr_date log =
     (respond (py ''OVERVIEW'') [(py ''symbol'', ticker)],
      log @ [(py ''OVERVIEW'', [(py ''symbol'', ticker)])])"
  by (simp add: get_fundamentals_def make_api_request_def Let_def)

text \<open>
  C8. Each of \<^verbatim>\<open>get_balance_sheet\<close>, \<^verbatim>\<open>get_cashflow\<close> and
  \<^verbatim>\<open>get_income_statement\<close> makes one request, with its own report type and the
  parameters \<^verbatim>\<open>{"symbol": ticker}\<close>, and returns the trimmer applied to the response
  (an exception of the helper propagates); an error text that is not JSON, such as
  \<^verbatim>\<open>Error: rate limit exceeded\<close>, comes back unchanged.
\<close>

theorem get_statements_trimmed:
  "get_balance_sheet h respond ticker freq curr_date log =
     (case respond (py ''BALANCE_SHEET'') [(py ''symbol'', ticker)] of
        Inl e \<Rightarrow> Inl e
      | Inr text \<Rightarrow> trim_financial_reports h text,
      log @ [(py ''BALANCE_SHEET'', [(py ''symbol'', ticker)])])
   \<and> get_cashflow h respond ticker freq curr_date log =
     (case respond (py ''CASH_FLOW'') [(py ''symbol'', ticker)] of
        Inl e \<Rightarrow> Inl e
      | Inr text \<Rightarrow> trim_financial_reports h text,
      log @ [(py ''CASH_FLOW'', [(py ''symbol'', ticker)])])
   \<and> get_income_statement h respond ticker freq curr_date log =
     (case respond (py ''INCOME_STATEMENT'') [(py ''symbol'', ticker)] of
        Inl e \<Rightarrow> Inl e
      | Inr text \<Rightarrow> trim_financial_reports h text,
      log @ [(py ''INCOME_STATEMENT'', [(py ''symbol'', ticker)])])
   \<and> trim_financial_reports h (py ''Error: rate limit exceeded'')
       = Inr (py ''Error: rate limit exceeded'')"
proof -
  have "json_loads h (py ''Error: rate limit exceeded'') = None"
    by (simp add: json_loads_def py_def skip_ws_def is_ws_def match_number_def is_digit_def)
  then have "trim_financial_reports h (py ''Error: rate limit exceeded'')
       = Inr (py ''Error: rate limit exceeded'')"
    by (simp add: trim_financial_reports_def)
  then show ?thesis
    by (simp add: get_balance_sheet_def get_cashflow_def get_income_statement_def
          make_api_request_def trimmed_def Let_def split: sum.splits)
qed

theorem get_statements_trimmed_witness:
  "get_income_statement text_floats (\<lambda>function_name ps. Inr (py ''Error: rate limit exceeded''))
     (py ''IBM'') (py ''quarterly'') None []
   = (Inr (py ''Error: rate limit exceeded''),
      [(py ''INCOME_STATEMENT'', [(py ''symbol'', py ''IBM'')])])"
  using get_statements_trimmed [of text_floats
          "\<lambda>function_name ps. Inr (py ''Error: rate limit exceeded'')"
          "py ''IBM''" "py ''quarterly''" None "[]"]
  by simp

text \<open>
  C9. \<^verbatim>\<open>freq\<close> and \<^verbatim>\<open>curr_date\<close> are ignored: two calls that differ in them only
  make the same request and, the provider answering alike, return the same result.
\<close>

theorem hints_ignored:
  "get_fundamentals respond ticker curr_date log
     = get_fundamentals respond ticker curr_date' log
   \<and> get_balance_sheet h respond ticker freq curr_date log
     = get_balance_sheet h respond ticker freq' curr_date' log
   \<and> get_cashflow h respond ticker freq curr_date log
     = get_cashflow h respond ticker freq' curr_date' log
   \<and> get_income_statement h respond ticker freq curr_date log
     = get_income_statement h respond ticker freq' curr_date' log"
  by (simp add: get_fundamentals_def get_balance_sheet_def get_cashflow_def
        get_income_statement_def Let_def)

section \<open>The output is ASCII\<close>

lemma is_ascii_simps [simp]:
  "is_ascii []" "is_ascii (c # s) \<longleftrightarrow> c < 0x80 \<and> is_ascii s"
  "is_ascii (s @ t) \<longleftrightarrow> is_ascii s \<and> is_ascii t"
  by (simp_all add: is_ascii_def)

lemma is_ascii_py_literals [simp]:
  "is_ascii (py ''null'')" "is_ascii (py ''true'')" "is_ascii (py ''false'')"
  "is_ascii (py ''[]'')" "is_ascii (py ''{}'')"
  by (simp_all add: py_def)

lemma hexdigit_ascii: "d < 16 \<Longrightarrow> hexdigit d < 0x80"
  by (simp add: hexdigit_def)

lemma is_ascii_hex4 [simp]: "is_ascii (hex4 n)"
  by (simp add: hex4_def hexdigit_ascii)

lemma is_ascii_escape_char [simp]: "is_ascii (escape_char c)"
  by (simp add: escape_char_def)

lemma is_ascii_concat_escape: "is_ascii (concat (map escape_char s))"
  by (induction s) simp_all

lemma is_ascii_encode_basestring [simp]: "is_ascii (encode_basestring_ascii s)"
  by (simp add: encode_basestring_ascii_def is_ascii_concat_escape)

lemma is_ascii_digits [simp]: "is_ascii (digits n)"
proof (induction n rule: digits.induct)
  case (1 n)
  show ?case
  proof (cases "n < 10")
    case True
    then show ?thesis by (subst digits.simps) simp
  next
    case False
    with 1 show ?thesis by (subst digits.simps) simp
  qed
qed

lemma is_ascii_int_repr [simp]: "is_ascii (int_repr i)"
  by (simp add: int_repr_def)

lemma is_ascii_newline_indent [simp]: "is_ascii (newline_indent lvl)"
  by (simp add: newline_indent_def is_ascii_def list_all_iff)

lemma snds_eq: "Basic_BNFs.snds x = {snd x}"
  by (cases x) simp


lemma set_dict_set: "set (dict_set d k v) \<subseteq> insert (k, v) (set d)"
  by (induction d) (auto split: if_splits)







section \<open>Reading back what json.dumps prints\<close>

lemma hexval_hexdigit: "d < 16 \<Longrightarrow> hexval (hexdigit d) = Some d"
  by (auto simp: hexval_def hexdigit_def)

lemma hex4_value:
  "((n div 4096 * 16 + n div 256 mod 16) * 16 + n div 16 mod 16) * 16 + n mod 16 = (n::nat)"
proof -
  have d1: "n div 256 = n div 16 div 16" using div_mult2_eq [of n 16 16] by simp
  have d2: "n div 4096 = n div 256 div 16" using div_mult2_eq [of n 256 16] by simp
  have 1: "n div 16 = (n div 256) * 16 + n div 16 mod 16"
    unfolding d1 by simp
  have 2: "n div 256 = (n div 4096) * 16 + n div 256 mod 16"
    unfolding d2 by simp
  have 3: "n = n div 16 * 16 + n mod 16" by simp
  show ?thesis using 1 2 3 by arith
qed

lemma decode_hex4: "n < 0x10000 \<Longrightarrow> decode_uXXXX (hex4 n @ t) = Some n"
proof -
  assume n: "n < 0x10000"
  have m: "n div 4096 mod 16 = n div 4096" using n by (simp add: div_less_iff_less_mult)
  have "hex4 n = [hexdigit (n div 4096), hexdigit (n div 256 mod 16),
             hexdigit (n div 16 mod 16), hexdigit (n mod 16)]"
    by (simp add: hex4_def m)
  moreover have "n div 4096 < 16" using n by (simp add: div_less_iff_less_mult)
  ultimately show ?thesis
    using hex4_value [of n] by (simp add: decode_uXXXX_def hexval_hexdigit)
qed

lemma high_half_bound: "0xd800 + (x::nat) mod 1024 < 0x10000"
proof -
  have "x mod 1024 < 1024" by simp
  then show ?thesis by linarith
qed

lemma low_half_bound: "0xdc00 + (x::nat) mod 1024 < 0x10000"
proof -
  have "x mod 1024 < 1024" by simp
  then show ?thesis by linarith
qed

lemma prepend_Some [simp]: "prepend c (Some (cs, r)) = Some (c # cs, r)"
  by (simp add: prepend_def)

lemma prepend_None [simp]: "prepend c None = None"
  by (simp add: prepend_def)

lemma str_tail_simps [simp]:
  "str_tail [] rest = 0x22 # rest"
  "str_tail (c # cs) rest = escape_char c @ str_tail cs rest"
  by (simp_all add: str_tail_def)

lemma escape_u_head:
  assumes "take 2 (str_tail cs rest) = [0x5c, 0x75]"
  shows "\<exists>d ds. cs = d # ds \<and>
     (if d < 0x10000 then decode_uXXXX (drop 2 (str_tail cs rest)) = Some d
      else \<exists>u. decode_uXXXX (drop 2 (str_tail cs rest)) = Some u \<and> is_high u)"
proof (cases cs)
  case Nil
  with assms show ?thesis by simp
next
  case (Cons d ds)
  show ?thesis
  proof (cases "d < 0x10000")
    case True
    with assms Cons have "escape_char d = [0x5c, 0x75] @ hex4 d"
      by (auto simp: escape_char_def split: if_splits)
    with True Cons show ?thesis by (simp add: decode_hex4)
  next
    case False
    let ?u = "0xd800 + (d - 0x10000) div 1024 mod 1024"
    have u: "?u < 0x10000" by (rule high_half_bound)
    have "(d - 0x10000) div 1024 mod 1024 < 1024" by simp
    then have hi: "is_high ?u" unfolding is_high_def by linarith
    from False have "escape_char d = [0x5c, 0x75] @ hex4 ?u
         @ [0x5c, 0x75] @ hex4 (0xdc00 + (d - 0x10000) mod 1024)"
      by (simp add: escape_char_def)
    then have "decode_uXXXX (drop 2 (str_tail cs rest)) = Some ?u"
      using Cons decode_hex4 [OF u] by simp
    with hi False Cons show ?thesis by auto
  qed
qed

lemma scanstring_quote: "scanstring (0x22 # s) = Some ([], s)"
  by (simp add: scanstring.simps(2))

lemma scanstring_plain:
  "c \<noteq> 0x22 \<Longrightarrow> c \<noteq> 0x5c \<Longrightarrow> 0x20 \<le> c \<Longrightarrow> scanstring (c # s) = prepend c (scanstring s)"
  by (simp add: scanstring.simps(2))

lemma scanstring_backslash:
  "e \<noteq> 0x75 \<Longrightarrow> backslash e = Some ch \<Longrightarrow>
   scanstring (0x5c # e # s) = prepend ch (scanstring s)"
  by (simp add: scanstring.simps(2))

lemma scanstring_u:
  "scanstring (0x5c # 0x75 # s') =
     (case decode_uXXXX s' of
        None \<Rightarrow> None
      | Some uni \<Rightarrow>
          if 0xd800 \<le> uni \<and> uni \<le> 0xdbff \<and> take 2 (drop 4 s') = [0x5c, 0x75] then
            (case decode_uXXXX (drop 6 s') of
               None \<Rightarrow> None
             | Some uni2 \<Rightarrow>
                 if 0xdc00 \<le> uni2 \<and> uni2 \<le> 0xdfff
                 then prepend (0x10000 + ((uni - 0xd800) * 1024 + (uni2 - 0xdc00)))
                        (scanstring (drop 10 s'))
                 else prepend uni (scanstring (drop 4 s')))
          else prepend uni (scanstring (drop 4 s')))"
  by (simp add: scanstring.simps(2))

lemma length_hex4 [simp]: "length (hex4 n) = 4"
  by (simp add: hex4_def)

lemma scanstring_escape_bmp:
  assumes c: "c < 0x10000"
    and nxt: "is_high c \<longrightarrow> cs = [] \<or> \<not> is_low (hd cs)"
  shows "scanstring (0x5c # 0x75 # hex4 c @ str_tail cs rest)
       = prepend c (scanstring (str_tail cs rest))"
proof (cases "is_high c \<and> take 2 (str_tail cs rest) = [0x5c, 0x75]")
  case False
  then show ?thesis
    by (auto simp: scanstring_u decode_hex4 [OF c] is_high_def)
next
  case True
  with escape_u_head [of cs rest] obtain d ds where cs: "cs = d # ds"
    and d: "if d < 0x10000 then decode_uXXXX (drop 2 (str_tail cs rest)) = Some d
      else \<exists>u. decode_uXXXX (drop 2 (str_tail cs rest)) = Some u \<and> is_high u"
    by blast
  from nxt True cs have notlow: "\<not> is_low d" by simp
  have "\<exists>u. decode_uXXXX (drop 2 (str_tail cs rest)) = Some u \<and> \<not> is_low u"
  proof (cases "d < 0x10000")
    case True
    with d notlow show ?thesis by auto
  next
    case False
    with d obtain u where "decode_uXXXX (drop 2 (str_tail cs rest)) = Some u" "is_high u" by auto
    then show ?thesis by (auto simp: is_high_def is_low_def)
  qed
  then obtain u where u: "decode_uXXXX (drop 2 (str_tail cs rest)) = Some u" "\<not> is_low u"
    by blast
  have six: "drop 6 (hex4 c @ str_tail cs rest) = drop 2 (str_tail cs rest)"
    by simp
  have four: "drop 4 (hex4 c @ str_tail cs rest) = str_tail cs rest"
    by simp
  from u(2) have nl: "(0xdc00 \<le> u \<and> u \<le> 0xdfff) = False" by (simp add: is_low_def)
  from True have hi: "(0xd800 \<le> c \<and> c \<le> 0xdbff \<and> take 2 (str_tail cs rest) = [0x5c, 0x75]) = True"
    by (simp add: is_high_def)
  show ?thesis
    unfolding scanstring_u six four decode_hex4 [OF c] option.case hi if_True u(1) nl if_False
    by (rule refl)
qed

lemma scanstring_escape_astral:
  assumes lo: "0x10000 \<le> c" and hi: "c < 0x110000"
  shows "scanstring (0x5c # 0x75 # hex4 (0xd800 + (c - 0x10000) div 1024 mod 1024)
           @ 0x5c # 0x75 # hex4 (0xdc00 + (c - 0x10000) mod 1024) @ t)
       = prepend c (scanstring t)"
proof -
  let ?n = "c - 0x10000"
  let ?h = "0xd800 + ?n div 1024 mod 1024"
  let ?l = "0xdc00 + ?n mod 1024"
  let ?s' = "hex4 ?h @ 0x5c # 0x75 # hex4 ?l @ t"
  have n: "?n < 0x100000" using lo hi by linarith
  then have small: "?n div 1024 mod 1024 = ?n div 1024"
    by (simp add: div_less_iff_less_mult)
  have h: "decode_uXXXX ?s' = Some ?h"
    by (rule decode_hex4 [OF high_half_bound])
  have d6: "drop 6 ?s' = hex4 ?l @ t" by simp
  have d10: "drop 10 ?s' = t" by simp
  have t2: "take 2 (drop 4 ?s') = [0x5c, 0x75]" by simp
  have l: "decode_uXXXX (hex4 ?l @ t) = Some ?l"
    by (rule decode_hex4 [OF low_half_bound])
  have m1: "?n div 1024 mod 1024 < 1024" and m2: "?n mod 1024 < 1024" by simp_all
  have hr: "(0xd800 \<le> ?h \<and> ?h \<le> 0xdbff \<and> take 2 (drop 4 ?s') = [0x5c, 0x75]) = True"
    using m1 t2 by simp
  have lr: "(0xdc00 \<le> ?l \<and> ?l \<le> 0xdfff) = True"
    using m2 by simp
  have "?n div 1024 * 1024 + ?n mod 1024 = ?n" by simp
  then have val: "0x10000 + ((?h - 0xd800) * 1024 + (?l - 0xdc00)) = c"
    using lo small by simp
  show ?thesis
    unfolding scanstring_u h option.case hr if_True d6 l lr d10 val
    by (rule refl)
qed

lemma scanstring_escape_char:
  assumes c: "c < 0x110000"
    and nxt: "is_high c \<longrightarrow> cs = [] \<or> \<not> is_low (hd cs)"
  shows "scanstring (escape_char c @ str_tail cs rest) = prepend c (scanstring (str_tail cs rest))"
proof -
  consider (short) "c = 0x5c \<or> c = 0x22 \<or> c = 0x08 \<or> c = 0x0c \<or> c = 0x0a \<or> c = 0x0d \<or> c = 0x09"
    | (plain) "c \<noteq> 0x5c" "c \<noteq> 0x22" "0x20 \<le> c" "c \<le> 0x7e"
    | (bmp) "c \<noteq> 0x5c" "c \<noteq> 0x22" "c \<noteq> 0x08" "c \<noteq> 0x0c" "c \<noteq> 0x0a" "c \<noteq> 0x0d" "c \<noteq> 0x09"
        "\<not> (0x20 \<le> c \<and> c \<le> 0x7e)" "c < 0x10000"
    | (astral) "0x10000 \<le> c"
    by linarith
  then show ?thesis
  proof cases
    case short
    then show ?thesis
      by (elim disjE) (simp_all add: escape_char_def scanstring_backslash backslash_def)
  next
    case plain
    then show ?thesis by (simp add: escape_char_def scanstring_plain)
  next
    case bmp
    then have "escape_char c = [0x5c, 0x75] @ hex4 c" by (simp add: escape_char_def)
    with scanstring_escape_bmp [OF bmp(9) nxt, of rest] show ?thesis by simp
  next
    case astral
    then have "escape_char c = [0x5c, 0x75] @ hex4 (0xd800 + (c - 0x10000) div 1024 mod 1024)
         @ [0x5c, 0x75] @ hex4 (0xdc00 + (c - 0x10000) mod 1024)"
      by (simp add: escape_char_def)
    with scanstring_escape_astral [OF astral c, of "str_tail cs rest"] show ?thesis by simp
  qed
qed

lemma scanstring_str_tail:
  "str_reads_back cs \<Longrightarrow> scanstring (str_tail cs rest) = Some (cs, rest)"
proof (induction cs rule: str_reads_back.induct)
  case 1
  show ?case by (simp add: scanstring_quote)
next
  case (2 c)
  then have "scanstring (escape_char c @ str_tail [] rest) = prepend c (scanstring (str_tail [] rest))"
    by (intro scanstring_escape_char) simp_all
  then show ?case by (simp add: scanstring_quote)
next
  case (3 c d cs)
  then have "scanstring (escape_char c @ str_tail (d # cs) rest)
      = prepend c (scanstring (str_tail (d # cs) rest))"
    by (intro scanstring_escape_char) simp_all
  with 3 show ?case by simp
qed

lemma scanstring_encoded:
  "str_reads_back cs \<Longrightarrow> scanstring (tl (encode_basestring_ascii cs) @ rest) = Some (cs, rest)"
  using scanstring_str_tail [of cs rest]
  by (simp add: encode_basestring_ascii_def str_tail_def)

lemma value_end_digits: "value_end rest \<Longrightarrow> takeWhile is_digit rest = []"
  by (cases rest) (auto simp: value_end_def is_digit_def)

lemma takeWhile_digit_end:
  "value_end rest \<Longrightarrow> takeWhile is_digit (s @ rest) = takeWhile is_digit s"
  by (induction s) (simp_all add: value_end_digits)

lemma match_frac_append: "value_end rest \<Longrightarrow> match_frac (s @ rest) = match_frac s"
proof (cases s)
  case Nil
  assume "value_end rest"
  then show ?thesis using Nil
    by (cases rest) (auto simp: match_frac_def value_end_def is_digit_def split: list.splits)
next
  case (Cons p s')
  assume ve: "value_end rest"
  show ?thesis
  proof (cases s')
    case Nil
    with Cons ve show ?thesis
      by (cases rest) (auto simp: match_frac_def value_end_def is_digit_def split: list.splits)
  next
    case (Cons f t)
    with \<open>s = p # s'\<close> ve show ?thesis
      by (simp add: match_frac_def takeWhile_digit_end)
  qed
qed

lemma length_match_frac: "length (match_frac s) \<le> length s"
proof -
  have "length (takeWhile is_digit t) \<le> length t" for t :: pystr
    by (rule length_takeWhile_le)
  then show ?thesis
    by (auto simp: match_frac_def split: list.splits)
qed

lemma match_exp_append: "value_end rest \<Longrightarrow> match_exp (s @ rest) = match_exp s"
proof (cases s)
  case Nil
  assume "value_end rest"
  then show ?thesis using Nil
    by (cases rest) (auto simp: match_exp_def value_end_def)
next
  case (Cons e t)
  assume ve: "value_end rest"
  show ?thesis
  proof (cases t)
    case Nil
    have "take 1 rest \<noteq> [0x2b] \<and> take 1 rest \<noteq> [0x2d]"
      using ve by (cases rest) (auto simp: value_end_def)
    with Nil Cons ve show ?thesis
      by (simp add: match_exp_def value_end_digits)
  next
    case (Cons x t')
    with \<open>s = e # t\<close> ve show ?thesis
      by (simp add: match_exp_def Let_def takeWhile_digit_end)
  qed
qed

lemma length_match_exp: "length (match_exp s) \<le> length s"
proof (cases s)
  case Nil
  then show ?thesis by (simp add: match_exp_def)
next
  case (Cons e t)
  have tw: "length (takeWhile is_digit u) \<le> length u" for u :: pystr
    by (rule length_takeWhile_le)
  have "length (takeWhile is_digit (drop 1 t)) \<le> length t - 1"
    using tw [of "drop 1 t"] by simp
  moreover have "take 1 t = [0x2b] \<or> take 1 t = [0x2d] \<Longrightarrow> t \<noteq> []" by auto
  ultimately show ?thesis
    using Cons tw [of t]
    by (auto simp: match_exp_def Let_def) (cases t; simp)+
qed

lemma drop_prefix_append: "n \<le> length s \<Longrightarrow> drop n (s @ rest) = drop n s @ rest"
  by simp

lemma match_number_neg:
  "match_number (0x2d # s1) =
     (case s1 of
        [] \<Rightarrow> None
      | d # s2 \<Rightarrow>
          if \<not> is_digit d then None
          else
            let ip = (if d = 0x30 then [d] else d # takeWhile is_digit s2);
                s3 = drop (length ip) s1;
                frac = match_frac s3;
                s4 = drop (length frac) s3;
                ex = match_exp s4;
                s5 = drop (length ex) s4
            in Some (frac \<noteq> [] \<or> ex \<noteq> [], [0x2d] @ ip @ frac @ ex, s5))"
  by (simp add: match_number_def Let_def split: list.splits)

lemma match_number_pos:
  "take 1 s1 \<noteq> [0x2d] \<Longrightarrow> match_number s1 =
     (case s1 of
        [] \<Rightarrow> None
      | d # s2 \<Rightarrow>
          if \<not> is_digit d then None
          else
            let ip = (if d = 0x30 then [d] else d # takeWhile is_digit s2);
                s3 = drop (length ip) s1;
                frac = match_frac s3;
                s4 = drop (length frac) s3;
                ex = match_exp s4;
                s5 = drop (length ex) s4
            in Some (frac \<noteq> [] \<or> ex \<noteq> [], [] @ ip @ frac @ ex, s5))"
  by (simp add: match_number_def Let_def split: list.splits)

lemma number_tail_append:
  assumes ve: "value_end rest"
  shows "(let frac = match_frac (s3 @ rest);
              s4 = drop (length frac) (s3 @ rest);
              ex = match_exp s4;
              s5 = drop (length ex) s4
          in Some (frac \<noteq> [] \<or> ex \<noteq> [], pre @ frac @ ex, s5))
       = (let frac = match_frac s3;
              s4 = drop (length frac) s3;
              ex = match_exp s4;
              s5 = drop (length ex) s4
          in Some (frac \<noteq> [] \<or> ex \<noteq> [], pre @ frac @ ex, s5 @ rest))"
proof -
  let ?frac = "match_frac s3"
  let ?s4 = "drop (length ?frac) s3"
  let ?ex = "match_exp ?s4"
  have f: "match_frac (s3 @ rest) = ?frac" by (rule match_frac_append [OF ve])
  have d4: "drop (length ?frac) (s3 @ rest) = ?s4 @ rest"
    using length_match_frac [of s3] by simp
  have e: "match_exp (?s4 @ rest) = ?ex" by (rule match_exp_append [OF ve])
  have d5: "drop (length ?ex) (?s4 @ rest) = drop (length ?ex) ?s4 @ rest"
    using length_match_exp [of ?s4] by simp
  show ?thesis
    unfolding Let_def f d4 e d5 by (rule refl)
qed

lemma number_body_append:
  assumes ve: "value_end rest"
  shows "(case s1 @ rest of
        [] \<Rightarrow> None
      | d # s2 \<Rightarrow>
          if \<not> is_digit d then None
          else
            let ip = (if d = 0x30 then [d] else d # takeWhile is_digit s2);
                s3 = drop (length ip) (s1 @ rest);
                frac = match_frac s3;
                s4 = drop (length frac) s3;
                ex = match_exp s4;
                s5 = drop (length ex) s4
            in Some (frac \<noteq> [] \<or> ex \<noteq> [], sg @ ip @ frac @ ex, s5))
    = map_option (\<lambda>(b, txt, r). (b, txt, r @ rest))
      (case s1 of
        [] \<Rightarrow> None
      | d # s2 \<Rightarrow>
          if \<not> is_digit d then None
          else
            let ip = (if d = 0x30 then [d] else d # takeWhile is_digit s2);
                s3 = drop (length ip) s1;
                frac = match_frac s3;
                s4 = drop (length frac) s3;
                ex = match_exp s4;
                s5 = drop (length ex) s4
            in Some (frac \<noteq> [] \<or> ex \<noteq> [], sg @ ip @ frac @ ex, s5))"
proof (cases s1)
  case Nil
  with ve show ?thesis
    by (cases rest) (auto simp: value_end_def is_digit_def)
next
  case (Cons d s2)
  show ?thesis
  proof (cases "is_digit d")
    case False
    then show ?thesis unfolding Cons by simp
  next
    case True
    define ip where "ip = (if d = 0x30 then [d] else d # takeWhile is_digit s2)"
    have ip': "(if d = 0x30 then [d] else d # takeWhile is_digit (s2 @ rest)) = ip"
      by (simp add: ip_def takeWhile_digit_end [OF ve])
    have "length ip \<le> length (d # s2)"
      using length_takeWhile_le [of is_digit s2] by (simp add: ip_def)
    then have d3: "drop (length ip) ((d # s2) @ rest) = drop (length ip) (d # s2) @ rest"
      by (rule drop_prefix_append)
    let ?s3 = "drop (length ip) (d # s2)"
    let ?frac = "match_frac ?s3"
    let ?s4 = "drop (length ?frac) ?s3"
    let ?ex = "match_exp ?s4"
    have d3': "drop (length ip) (d # s2 @ rest) = ?s3 @ rest"
      using d3 by simp
    have f: "match_frac (?s3 @ rest) = ?frac" by (rule match_frac_append [OF ve])
    have d4: "drop (length ?frac) (?s3 @ rest) = ?s4 @ rest"
      using length_match_frac [of ?s3] by (intro drop_prefix_append)
    have e: "match_exp (?s4 @ rest) = ?ex" by (rule match_exp_append [OF ve])
    have d5: "drop (length ?ex) (?s4 @ rest) = drop (length ?ex) ?s4 @ rest"
      using length_match_exp [of ?s4] by (intro drop_prefix_append)
    have nd: "(\<not> is_digit d) = False" using True by simp
    show ?thesis
      unfolding Cons append_Cons list.case nd if_False Let_def ip'
      unfolding ip_def [symmetric] d3' f d4 e d5
      by simp
  qed
qed

lemma match_number_append:
  assumes ve: "value_end rest"
  shows "match_number (t @ rest) =
         map_option (\<lambda>(b, txt, r). (b, txt, r @ rest)) (match_number t)"
proof (cases "take 1 t = [0x2d]")
  case True
  then obtain s1 where t: "t = 0x2d # s1" by (cases t) auto
  have t': "t @ rest = 0x2d # (s1 @ rest)" by (simp add: t)
  show ?thesis
    unfolding t' unfolding t match_number_neg
    by (rule number_body_append [OF ve])
next
  case False
  have "take 1 (t @ rest) \<noteq> [0x2d]"
    using False ve by (cases t; cases rest) (auto simp: value_end_def)
  then show ?thesis
    unfolding match_number_pos [OF False] match_number_pos [OF \<open>take 1 (t @ rest) \<noteq> [0x2d]\<close>]
    by (intro number_body_append [OF ve])
qed

lemma digits_small: "n < 10 \<Longrightarrow> digits n = [0x30 + n]"
  by (subst digits.simps) simp

lemma digits_big: "\<not> n < 10 \<Longrightarrow> digits n = digits (n div 10) @ [0x30 + n mod 10]"
  by (subst digits.simps) simp

lemma digits_nonempty: "digits n \<noteq> []"
  by (cases "n < 10") (simp_all add: digits_small digits_big)

lemma digits_all: "c \<in> set (digits n) \<Longrightarrow> is_digit c"
proof (induction n rule: digits.induct)
  case (1 n)
  show ?case
  proof (cases "n < 10")
    case True
    with 1(2) show ?thesis by (simp add: digits_small is_digit_def)
  next
    case False
    have "n mod 10 < 10" by simp
    then have "is_digit (0x30 + n mod 10)" unfolding is_digit_def by linarith
    with 1 False show ?thesis by (auto simp: digits_big)
  qed
qed

lemma digits_hd: "0 < n \<Longrightarrow> hd (digits n) \<noteq> 0x30"
proof (induction n rule: digits.induct)
  case (1 n)
  show ?case
  proof (cases "n < 10")
    case True
    with 1(2) show ?thesis by (simp add: digits_small)
  next
    case False
    then have "0 < n div 10" by simp
    with 1(1) False have "hd (digits (n div 10)) \<noteq> 0x30" by simp
    with False show ?thesis by (simp add: digits_big digits_nonempty)
  qed
qed

lemma nat_of_digits_snoc: "nat_of_digits (ds @ [d]) = nat_of_digits ds * 10 + (d - 0x30)"
  by (simp add: nat_of_digits_def)

lemma nat_of_digits_digits: "nat_of_digits (digits n) = n"
proof (induction n rule: digits.induct)
  case (1 n)
  show ?case
  proof (cases "n < 10")
    case True
    then show ?thesis by (simp add: digits_small nat_of_digits_def)
  next
    case False
    with 1 show ?thesis by (simp add: digits_big nat_of_digits_snoc)
  qed
qed

lemma takeWhile_all: "(\<And>c. c \<in> set s \<Longrightarrow> P c) \<Longrightarrow> takeWhile P s = s"
  by (induction s) simp_all

lemma match_frac_Nil [simp]: "match_frac [] = []"
  by (simp add: match_frac_def)

lemma match_exp_Nil [simp]: "match_exp [] = []"
  by (simp add: match_exp_def)

lemma number_body_digits:
  assumes all: "\<And>c. c \<in> set ds \<Longrightarrow> is_digit c"
    and ne: "ds \<noteq> []"
    and zero: "hd ds = 0x30 \<Longrightarrow> ds = [0x30]"
  shows "(case ds of
        [] \<Rightarrow> None
      | d # s2 \<Rightarrow>
          if \<not> is_digit d then None
          else
            let ip = (if d = 0x30 then [d] else d # takeWhile is_digit s2);
                s3 = drop (length ip) ds;
                frac = match_frac s3;
                s4 = drop (length frac) s3;
                ex = match_exp s4;
                s5 = drop (length ex) s4
            in Some (frac \<noteq> [] \<or> ex \<noteq> [], sg @ ip @ frac @ ex, s5))
     = Some (False, sg @ ds, [])"
proof -
  from ne obtain d s2 where ds: "ds = d # s2" by (cases ds) auto
  have d: "is_digit d" using all ds by simp
  have tw: "takeWhile is_digit s2 = s2" using all ds by (intro takeWhile_all) simp
  have ip: "(if d = 0x30 then [d] else d # takeWhile is_digit s2) = ds"
    using zero ds tw by auto
  have nd: "(\<not> is_digit d) = False" using d by simp
  show ?thesis
    unfolding ds list.case nd if_False Let_def
    unfolding ds [symmetric] ip
    by simp
qed

lemma match_number_int_repr: "match_number (int_repr i) = Some (False, int_repr i, [])"
proof (cases "i < 0")
  case True
  let ?n = "nat (- i)"
  have pos: "0 < ?n" using True by simp
  have z: "hd (digits ?n) = 0x30 \<Longrightarrow> digits ?n = [0x30]"
    using digits_hd [OF pos] by simp
  show ?thesis
    using True number_body_digits [where sg = "[0x2d]", OF digits_all digits_nonempty z]
    by (simp add: int_repr_def match_number_neg)
next
  case False
  let ?n = "nat i"
  have z: "hd (digits ?n) = 0x30 \<Longrightarrow> digits ?n = [0x30]"
    using digits_hd [of ?n] by (cases "?n = 0") (simp_all add: digits_small)
  have "is_digit (hd (digits ?n))"
    using digits_all [of "hd (digits ?n)" ?n] digits_nonempty [of ?n] by simp
  then have "take 1 (digits ?n) \<noteq> [0x2d]"
    using digits_nonempty [of ?n] by (cases "digits ?n") (auto simp: is_digit_def)
  then show ?thesis
    using False number_body_digits [where sg = "[]", OF digits_all digits_nonempty z]
    by (simp add: int_repr_def match_number_pos)
qed

lemma int_of_text_int_repr: "int_of_text (int_repr i) = i"
proof (cases "i < 0")
  case True
  then show ?thesis by (simp add: int_of_text_def int_repr_def nat_of_digits_digits)
next
  case False
  let ?n = "nat i"
  have "is_digit (hd (digits ?n))"
    using digits_all [of "hd (digits ?n)" ?n] digits_nonempty [of ?n] by simp
  then have "take 1 (digits ?n) \<noteq> [0x2d]"
    using digits_nonempty [of ?n] by (cases "digits ?n") (auto simp: is_digit_def)
  with False show ?thesis by (simp add: int_of_text_def int_repr_def nat_of_digits_digits)
qed

lemma match_number_first:
  "match_number t = Some r \<Longrightarrow> \<exists>c t'. t = c # t' \<and> (c = 0x2d \<or> is_digit c)"
  by (cases t) (auto simp: match_number_def Let_def split: if_splits list.splits)

lemmas scan_once_Suc = scan_once.simps(2)

declare scan_once.simps(2) [simp del] parse_items.simps(2) [simp del]
  parse_members.simps(2) [simp del]

lemma scan_once_number:
  assumes "match_number s = Some (b, text, r)"
  shows "scan_once h (Suc n) s
       = Some (if b then JFloat (parse_float h text) else JInt (int_of_text text), r)"
proof -
  from match_number_first [OF assms] obtain c t where s: "s = c # t"
    and c: "c = 0x2d \<or> is_digit c" by blast
  from c have "c \<noteq> 0x22" "c \<noteq> 0x7b" "c \<noteq> 0x5b" "c \<noteq> 0x6e" "c \<noteq> 0x74" "c \<noteq> 0x66"
    by (auto simp: is_digit_def)
  then show ?thesis
    using assms unfolding s
    by (simp add: py_def scan_once_Suc)
qed

lemma scan_once_int:
  assumes "value_end rest"
  shows "scan_once h (Suc n) (int_repr i @ rest) = Some (JInt i, rest)"
proof -
  have "match_number (int_repr i @ rest) = Some (False, int_repr i, rest)"
    by (simp add: match_number_append [OF assms] match_number_int_repr)
  from scan_once_number [OF this, of h n] show ?thesis
    by (simp add: int_of_text_int_repr)
qed

lemma scan_once_float:
  assumes ve: "value_end rest" and f: "float_reads_back h f"
  shows "scan_once h (Suc n) (floatstr h f @ rest) = Some (JFloat f, rest)"
proof -
  let ?t = "floatstr h f"
  from f consider
      (num) "match_number ?t = Some (True, ?t, [])" "parse_float h ?t = f"
    | (nan) "?t = py ''NaN''" "parse_constant h ?t = f"
    | (inf) "?t = py ''Infinity''" "parse_constant h ?t = f"
    | (ninf) "?t = py ''-Infinity''" "parse_constant h ?t = f"
    by (auto simp: float_reads_back_def Let_def)
  then show ?thesis
  proof cases
    case num
    have "match_number (?t @ rest) = Some (True, ?t, rest)"
      by (simp add: match_number_append [OF ve] num(1))
    from scan_once_number [OF this, of h n] num(2) show ?thesis by simp
  next
    case nan
    have "match_number (py ''NaN'' @ rest) = None"
      by (simp add: match_number_def py_def is_digit_def)
    then show ?thesis
      using nan(2) unfolding nan(1)
      by (simp add: py_def scan_once_Suc)
  next
    case inf
    have "match_number (py ''Infinity'' @ rest) = None"
      by (simp add: match_number_def py_def is_digit_def)
    then show ?thesis
      using inf(2) unfolding inf(1)
      by (simp add: py_def scan_once_Suc)
  next
    case ninf
    have "match_number (py ''-Infinity'' @ rest) = None"
      by (simp add: match_number_def py_def is_digit_def)
    then show ?thesis
      using ninf(2) unfolding ninf(1)
      by (simp add: py_def scan_once_Suc)
  qed
qed

lemma scan_once_str:
  assumes "str_reads_back s"
  shows "scan_once h (Suc n) (encode_basestring_ascii s @ rest) = Some (JStr s, rest)"
proof -
  have e: "encode_basestring_ascii s @ rest = 0x22 # (tl (encode_basestring_ascii s) @ rest)"
    by (simp add: encode_basestring_ascii_def)
  show ?thesis
    unfolding e using scanstring_encoded [OF assms, of rest] by (simp add: scan_once_Suc)
qed

lemma scan_once_literals:
  "scan_once h (Suc n) (py ''null'' @ rest) = Some (JNull, rest)"
  "scan_once h (Suc n) (py ''true'' @ rest) = Some (JBool True, rest)"
  "scan_once h (Suc n) (py ''false'' @ rest) = Some (JBool False, rest)"
  "scan_once h (Suc n) (py ''[]'' @ rest) = Some (JList [], rest)"
  "scan_once h (Suc n) (py ''{}'' @ rest) = Some (JDict [], rest)"
  by (simp_all add: py_def skip_ws_def is_ws_def scan_once_Suc)

lemma skip_ws_nonws: "\<not> is_ws c \<Longrightarrow> skip_ws (c # t) = c # t"
  by (simp add: skip_ws_def)

lemma skip_ws_indent: "skip_ws (newline_indent l @ s) = skip_ws s"
proof -
  have "dropWhile is_ws (replicate k 0x20 @ s) = dropWhile is_ws s" for k
    by (induction k) (simp_all add: is_ws_def)
  then show ?thesis
    by (simp add: skip_ws_def newline_indent_def is_ws_def)
qed

lemma value_end_simps [simp]:
  "value_end []" "value_end (0x2c # s)" "value_end (newline_indent l @ s)"
  by (simp_all add: value_end_def newline_indent_def)

lemma int_repr_head: "\<exists>c t. int_repr i = c # t \<and> (c = 0x2d \<or> is_digit c)"
  using match_number_first [OF match_number_int_repr] .

lemma iterencode_head:
  assumes "reads_back h v"
  shows "\<exists>c t. iterencode h lvl v = c # t \<and> \<not> is_ws c \<and> c \<noteq> 0x5d"
proof (cases v)
  case (JInt i)
  from int_repr_head [of i] show ?thesis
    unfolding JInt by (auto simp: is_ws_def is_digit_def)
next
  case (JFloat f)
  with assms have "float_reads_back h f" by simp
  then consider (num) "match_number (floatstr h f) = Some (True, floatstr h f, [])"
    | (const) "floatstr h f = py ''NaN'' \<or> floatstr h f = py ''Infinity''
        \<or> floatstr h f = py ''-Infinity''"
    by (auto simp: float_reads_back_def Let_def)
  then show ?thesis
  proof cases
    case num
    from match_number_first [OF num] show ?thesis
      unfolding JFloat by (auto simp: is_ws_def is_digit_def)
  next
    case const
    then show ?thesis unfolding JFloat by (auto simp: py_def is_ws_def)
  qed
next
  case (JList vs)
  then show ?thesis by (cases vs) (simp_all add: py_def is_ws_def)
next
  case (JDict d)
  then show ?thesis by (cases d) (simp_all add: py_def is_ws_def)
qed (simp_all add: py_def is_ws_def encode_basestring_ascii_def)

lemma iterencode_list_head:
  assumes "vs \<noteq> []" "reads_back_list h vs"
  shows "\<exists>c t. iterencode_list h lvl vs = c # t \<and> \<not> is_ws c \<and> c \<noteq> 0x5d"
proof -
  from assms obtain v ws where vs: "vs = v # ws" by (cases vs) auto
  with assms have "reads_back h v" by simp
  from iterencode_head [OF this, of lvl] show ?thesis
    unfolding vs by (cases ws) auto
qed

lemma iterencode_dict_head:
  "kvs \<noteq> [] \<Longrightarrow> \<exists>t. iterencode_dict h lvl kvs = 0x22 # t"
proof (cases kvs)
  case (Cons kv rest)
  then show ?thesis
    by (cases kv; cases rest) (simp_all add: encode_basestring_ascii_def)
qed simp

lemma dict_set_fresh: "k \<notin> set (map fst d) \<Longrightarrow> dict_set d k v = d @ [(k, v)]"
  by (induction d) auto

lemma dict_of_pairs_distinct:
  "distinct (map fst ps) \<Longrightarrow> dict_of_pairs ps = ps"
proof -
  have "distinct (map fst (d @ ps)) \<Longrightarrow> foldl (\<lambda>d (k, v). dict_set d k v) d ps = d @ ps" for d
  proof (induction ps arbitrary: d)
    case Nil
    show ?case by simp
  next
    case (Cons p ps)
    obtain k v where p: "p = (k, v)" by (cases p)
    from Cons.prems have "k \<notin> set (map fst d)" by (auto simp: p)
    then have "dict_set d k v = d @ [(k, v)]" by (rule dict_set_fresh)
    moreover have "distinct (map fst ((d @ [(k, v)]) @ ps))" using Cons.prems by (simp add: p)
    ultimately show ?case using Cons.IH [of "d @ [(k, v)]"] by (simp add: p)
  qed
  from this [of "[]"] show "distinct (map fst ps) \<Longrightarrow> dict_of_pairs ps = ps"
    by (simp add: dict_of_pairs_def)
qed

lemma not_ws_simps [simp]:
  "\<not> is_ws 0x5d" "\<not> is_ws 0x7d" "\<not> is_ws 0x2c" "\<not> is_ws 0x3a" "\<not> is_ws 0x22" "is_ws 0x20"
  by (simp_all add: is_ws_def)

lemma parse_items_last:
  assumes "scan_once h n s = Some (v, newline_indent l @ 0x5d # rest)"
  shows "parse_items h (Suc n) s = Some ([v], rest)"
  by (simp add: parse_items.simps(2) assms skip_ws_indent skip_ws_nonws)

lemma parse_items_more:
  assumes "scan_once h n s = Some (v, 0x2c # newline_indent l @ s')"
    and "s' = c # t" and "\<not> is_ws c"
    and "parse_items h n s' = Some (vs, rest)"
  shows "parse_items h (Suc n) s = Some (v # vs, rest)"
proof -
  have "skip_ws (newline_indent l @ s') = s'"
    using assms(2,3) by (simp add: skip_ws_indent skip_ws_nonws)
  then show ?thesis
    by (simp add: parse_items.simps(2) assms(1,4) skip_ws_nonws)
qed

lemma parse_members_last:
  assumes "str_reads_back k"
    and "s = c # t" and "\<not> is_ws c"
    and "scan_once h n s = Some (v, newline_indent l @ 0x7d # rest)"
  shows "parse_members h (Suc n) (tl (encode_basestring_ascii k) @ [0x3a, 0x20] @ s)
       = Some ([(k, v)], rest)"
proof -
  have a: "scanstring (tl (encode_basestring_ascii k) @ 0x3a # 0x20 # s) = Some (k, 0x3a # 0x20 # s)"
    by (rule scanstring_encoded [OF assms(1)])
  have b: "skip_ws (0x20 # s) = s"
    using assms(2,3) by (simp add: skip_ws_def)
  show ?thesis
    by (simp add: parse_members.simps(2) a b assms(4) skip_ws_nonws skip_ws_indent)
qed

lemma parse_members_more:
  assumes "str_reads_back k"
    and "s = c # t" and "\<not> is_ws c"
    and "scan_once h n s = Some (v, 0x2c # newline_indent l @ 0x22 # r')"
    and "parse_members h n r' = Some (kvs, rest)"
  shows "parse_members h (Suc n) (tl (encode_basestring_ascii k) @ [0x3a, 0x20] @ s)
       = Some ((k, v) # kvs, rest)"
proof -
  have a: "scanstring (tl (encode_basestring_ascii k) @ 0x3a # 0x20 # s) = Some (k, 0x3a # 0x20 # s)"
    by (rule scanstring_encoded [OF assms(1)])
  have b: "skip_ws (0x20 # s) = s"
    using assms(2,3) by (simp add: skip_ws_def)
  show ?thesis
    by (simp add: parse_members.simps(2) a b assms(4,5) skip_ws_nonws skip_ws_indent)
qed

lemma scan_once_list:
  assumes "s = c # t" and "\<not> is_ws c" and "c \<noteq> 0x5d"
    and "parse_items h n s = Some (vs, rest)"
  shows "scan_once h (Suc n) (0x5b # newline_indent l @ s) = Some (JList vs, rest)"
proof -
  have "skip_ws (newline_indent l @ s) = c # t"
    using assms(1,2) by (simp add: skip_ws_indent skip_ws_nonws)
  then show ?thesis
    using assms(3,4) unfolding assms(1)
    by (simp add: scan_once_Suc)
qed

lemma scan_once_dict:
  assumes "parse_members h n r = Some (kvs, rest)" and "distinct (map fst kvs)"
  shows "scan_once h (Suc n) (0x7b # newline_indent l @ 0x22 # r) = Some (JDict kvs, rest)"
proof -
  have "skip_ws (newline_indent l @ 0x22 # r) = 0x22 # r"
    by (simp add: skip_ws_indent skip_ws_nonws)
  then show ?thesis
    using assms by (simp add: scan_once_Suc dict_of_pairs_distinct)
qed

lemma fuel_pos: "0 < fuel v"
  by (cases v) simp_all

lemma round_trip:
  "reads_back h v \<Longrightarrow> value_end rest \<Longrightarrow> fuel v \<le> n \<Longrightarrow>
     scan_once h n (iterencode h lvl v @ rest) = Some (v, rest)"
  "vs \<noteq> [] \<Longrightarrow> reads_back_list h vs \<Longrightarrow> fuel_list vs \<le> n \<Longrightarrow>
     parse_items h n (iterencode_list h lvl vs @ newline_indent l' @ 0x5d # rest) = Some (vs, rest)"
  "kvs \<noteq> [] \<Longrightarrow> reads_back_dict h kvs \<Longrightarrow> fuel_dict kvs \<le> n \<Longrightarrow>
     parse_members h n (tl (iterencode_dict h lvl kvs) @ newline_indent l' @ 0x7d # rest)
       = Some (kvs, rest)"
proof (induction h lvl v and h lvl vs and h lvl kvs
       arbitrary: n rest and n l' rest and n l' rest
       rule: iterencode_iterencode_list_iterencode_dict.induct)
  case (1 h lvl)
  then obtain m where "n = Suc m" by (cases n) auto
  then show ?case by (simp add: scan_once_literals)
next
  case (2 h lvl b)
  then obtain m where "n = Suc m" by (cases n) auto
  then show ?case by (simp add: scan_once_literals)
next
  case (3 h lvl i)
  then obtain m where "n = Suc m" by (cases n) auto
  with 3 show ?case by (simp add: scan_once_int)
next
  case (4 h lvl f)
  then obtain m where "n = Suc m" by (cases n) auto
  with 4 show ?case by (simp add: scan_once_float)
next
  case (5 h lvl s)
  then obtain m where "n = Suc m" by (cases n) auto
  with 5 show ?case by (simp add: scan_once_str)
next
  case (6 h lvl)
  then obtain m where "n = Suc m" by (cases n) auto
  then show ?case by (simp add: scan_once_literals)
next
  case (7 h lvl v vs)
  from 7(4) obtain m where n: "n = Suc m" and m: "fuel_list (v # vs) \<le> m" by (cases n) auto
  from 7(2) have rb: "reads_back_list h (v # vs)" by simp
  have items: "parse_items h m (iterencode_list h (Suc lvl) (v # vs) @ newline_indent lvl @ 0x5d # rest)
      = Some (v # vs, rest)"
    by (rule 7(1) [OF _ rb m]) simp
  from iterencode_list_head [OF _ rb, of "Suc lvl"] obtain c t where
    hd: "iterencode_list h (Suc lvl) (v # vs) = c # t" "\<not> is_ws c" "c \<noteq> 0x5d" by auto
  have "scan_once h (Suc m) (0x5b # newline_indent (Suc lvl) @
           (iterencode_list h (Suc lvl) (v # vs) @ newline_indent lvl @ 0x5d # rest))
        = Some (JList (v # vs), rest)"
    by (rule scan_once_list [OF _ hd(2,3) items]) (simp add: hd(1))
  then show ?case by (simp add: n)
next
  case (8 h lvl)
  then obtain m where "n = Suc m" by (cases n) auto
  then show ?case by (simp add: scan_once_literals)
next
  case (9 h lvl kv kvs)
  from 9(4) obtain m where n: "n = Suc m" and m: "fuel_dict (kv # kvs) \<le> m" by (cases n) auto
  from 9(2) have rb: "reads_back_dict h (kv # kvs)" and dist: "distinct (map fst (kv # kvs))"
    by simp_all
  have members: "parse_members h m (tl (iterencode_dict h (Suc lvl) (kv # kvs))
        @ newline_indent lvl @ 0x7d # rest) = Some (kv # kvs, rest)"
    by (rule 9(1) [OF _ rb m]) simp
  from iterencode_dict_head [of "kv # kvs" h "Suc lvl"] obtain t where
    hd: "iterencode_dict h (Suc lvl) (kv # kvs) = 0x22 # t" by auto
  have "scan_once h (Suc m) (0x7b # newline_indent (Suc lvl) @
           0x22 # (tl (iterencode_dict h (Suc lvl) (kv # kvs)) @ newline_indent lvl @ 0x7d # rest))
        = Some (JDict (kv # kvs), rest)"
    by (rule scan_once_dict [OF members dist])
  then show ?case by (simp add: n hd)
next
  case (10 h lvl)
  then show ?case by simp
next
  case (11 h lvl v)
  from 11(4) obtain m where n: "n = Suc m" and m: "fuel v \<le> m" by (cases n) auto
  from 11(3) have rb: "reads_back h v" by simp
  have "scan_once h m (iterencode h lvl v @ newline_indent l' @ 0x5d # rest)
      = Some (v, newline_indent l' @ 0x5d # rest)"
    by (rule 11(1) [OF rb _ m]) simp
  from parse_items_last [OF this] show ?case by (simp add: n)
next
  case (12 h lvl v w vs)
  from 12(5) obtain m where n: "n = Suc m" and m1: "fuel v \<le> m" and m2: "fuel_list (w # vs) \<le> m"
    by (cases n) auto
  from 12(4) have rb: "reads_back h v" and rbs: "reads_back_list h (w # vs)" by simp_all
  let ?tail = "iterencode_list h lvl (w # vs) @ newline_indent l' @ 0x5d # rest"
  have first: "scan_once h m (iterencode h lvl v @ 0x2c # newline_indent lvl @ ?tail)
      = Some (v, 0x2c # newline_indent lvl @ ?tail)"
    by (rule 12(1) [OF rb _ m1]) simp
  have others: "parse_items h m ?tail = Some (w # vs, rest)"
    by (rule 12(2) [OF _ rbs m2]) simp
  from iterencode_list_head [OF _ rbs, of lvl] obtain c t where
    hd: "iterencode_list h lvl (w # vs) = c # t" "\<not> is_ws c" by auto
  have "parse_items h (Suc m) (iterencode h lvl v @ 0x2c # newline_indent lvl @ ?tail)
      = Some (v # w # vs, rest)"
    by (rule parse_items_more [OF first _ hd(2) others]) (simp add: hd(1))
  then show ?case by (simp add: n)
next
  case (13 h lvl)
  then show ?case by simp
next
  case (14 h lvl k v)
  from 14(4) obtain m where n: "n = Suc m" and m: "fuel v \<le> m" by (cases n) auto
  from 14(3) have k: "str_reads_back k" and rb: "reads_back h v" by simp_all
  from iterencode_head [OF rb, of lvl] obtain c t where
    hd: "iterencode h lvl v = c # t" "\<not> is_ws c" by auto
  let ?s = "iterencode h lvl v @ newline_indent l' @ 0x7d # rest"
  have v: "scan_once h m ?s = Some (v, newline_indent l' @ 0x7d # rest)"
    by (rule 14(1) [OF rb _ m]) simp
  have "parse_members h (Suc m) (tl (encode_basestring_ascii k) @ [0x3a, 0x20] @ ?s)
       = Some ([(k, v)], rest)"
    by (rule parse_members_last [OF k _ hd(2) v]) (simp add: hd(1))
  then show ?case by (simp add: n encode_basestring_ascii_def)
next
  case (15 h lvl k v kv kvs)
  from 15(5) obtain m where n: "n = Suc m" and m1: "fuel v \<le> m"
    and m2: "fuel_dict (kv # kvs) \<le> m" by (cases n) auto
  from 15(4) have k: "str_reads_back k" and rb: "reads_back h v"
    and rbs: "reads_back_dict h (kv # kvs)" by simp_all
  from iterencode_head [OF rb, of lvl] obtain c t where
    hd: "iterencode h lvl v = c # t" "\<not> is_ws c" by auto
  from iterencode_dict_head [of "kv # kvs" h lvl] obtain t' where
    hd': "iterencode_dict h lvl (kv # kvs) = 0x22 # t'" by auto
  let ?r' = "tl (iterencode_dict h lvl (kv # kvs)) @ newline_indent l' @ 0x7d # rest"
  let ?s = "iterencode h lvl v @ 0x2c # newline_indent lvl @ 0x22 # ?r'"
  have v: "scan_once h m ?s = Some (v, 0x2c # newline_indent lvl @ 0x22 # ?r')"
    by (rule 15(1) [OF rb _ m1]) simp
  have others: "parse_members h m ?r' = Some (kv # kvs, rest)"
    by (rule 15(2) [OF _ rbs m2]) simp
  have "parse_members h (Suc m) (tl (encode_basestring_ascii k) @ [0x3a, 0x20] @ ?s)
       = Some ((k, v) # kv # kvs, rest)"
    by (rule parse_members_more [OF k _ hd(2) v others]) (simp add: hd(1))
  then show ?case by (simp add: n encode_basestring_ascii_def hd')
qed

lemma length_newline_indent [simp]: "length (newline_indent l) = Suc (2 * l)"
  by (simp add: newline_indent_def)

lemma fuel_le_length:
  "fuel v \<le> Suc (length (iterencode h lvl v))"
  "fuel_list vs \<le> length (iterencode_list h lvl vs) + 2"
  "fuel_dict kvs \<le> length (iterencode_dict h lvl kvs) + 2"
  by (induction h lvl v and h lvl vs and h lvl kvs
      rule: iterencode_iterencode_list_iterencode_dict.induct) simp_all

theorem loads_dumps:
  assumes "reads_back h v"
  shows "json_loads h (json_dumps h v) = Some v"
proof -
  let ?s = "iterencode h 0 v"
  from iterencode_head [OF assms, of 0] obtain c t where hd: "?s = c # t" "\<not> is_ws c" by auto
  then have ws: "skip_ws ?s = ?s" by (simp add: skip_ws_nonws)
  have "scan_once h (Suc (length ?s)) (?s @ []) = Some (v, [])"
    by (rule round_trip(1) [OF assms _ fuel_le_length(1)]) simp
  moreover have "skip_ws [] = []" by (simp add: skip_ws_def)
  ultimately show ?thesis
    by (simp add: json_loads_def json_dumps_def ws)
qed

lemma str_reads_back_take: "str_reads_back s \<Longrightarrow> str_reads_back (take n s)"
proof (induction s arbitrary: n rule: str_reads_back.induct)
  case 1
  show ?case by simp
next
  case (2 c)
  then show ?case by (cases n) simp_all
next
  case (3 c d cs)
  show ?case
  proof (cases n)
    case 0
    then show ?thesis by simp
  next
    case (Suc m)
    from 3 have IH: "str_reads_back (take m (d # cs))" by simp
    show ?thesis
    proof (cases m)
      case 0
      with Suc 3(2) show ?thesis by simp
    next
      case (Suc k)
      with IH 3(2) \<open>n = Suc m\<close> show ?thesis by simp
    qed
  qed
qed

lemma reads_back_list_take: "reads_back_list h vs \<Longrightarrow> reads_back_list h (take n vs)"
  by (induction vs arbitrary: n) (auto simp: take_Cons split: nat.splits)

lemma reads_back_slice_to:
  "reads_back h v \<Longrightarrow> slice_to n v = Inr w \<Longrightarrow> reads_back h w"
  by (cases v) (auto simp: str_reads_back_take reads_back_list_take)

lemma reads_back_map_of:
  "reads_back_dict h d \<Longrightarrow> map_of d k = Some v \<Longrightarrow> reads_back h v"
  by (induction d) (auto split: if_splits)

lemma reads_back_dict_set:
  "reads_back_dict h d \<Longrightarrow> k \<in> set (map fst d) \<Longrightarrow> reads_back h w \<Longrightarrow>
   reads_back_dict h (dict_set d k w)"
proof (induction d)
  case Nil
  then show ?case by simp
next
  case (Cons kv d)
  obtain k' v' where kv: "kv = (k', v')" by (cases kv)
  show ?case
  proof (cases "k' = k")
    case True
    with Cons.prems show ?thesis by (simp add: kv)
  next
    case False
    with Cons.prems have "k \<in> set (map fst d)" by (auto simp: kv)
    with Cons False show ?thesis by (simp add: kv)
  qed
qed

lemma reads_back_trim_field:
  assumes "reads_back h data" and "trim_field key limit data = Inr data'"
  shows "reads_back h data'"
proof (cases data)
  case (JDict d)
  show ?thesis
  proof (cases "map_of d key")
    case None
    with JDict assms show ?thesis by (auto simp: trim_field_dict)
  next
    case (Some v)
    with JDict assms obtain w where w: "slice_to limit v = Inr w"
      and d': "data' = JDict (dict_set d key w)"
      by (auto simp: trim_field_dict split: sum.splits)
    from assms(1) JDict have dist: "distinct (map fst d)" and rb: "reads_back_dict h d" by simp_all
    from Some have key: "key \<in> set (map fst d)"
      by (metis map_of_eq_None_iff option.distinct(1) set_map)
    from reads_back_map_of [OF rb Some] w have "reads_back h w" by (rule reads_back_slice_to)
    from reads_back_dict_set [OF rb key this] dist key show ?thesis
      by (simp add: d' keys_dict_set)
  qed
qed (use assms in \<open>auto simp: trim_field_list trim_field_str trim_field_scalar split: if_splits\<close>)

section \<open>What json.loads makes of a text of scalar values\<close>

lemma scalar_text_Nil [simp]: "scalar_text []"
  by (simp add: scalar_text_def)

lemma scalar_text_Cons:
  "scalar_text (c # s) \<longleftrightarrow> c < 0x110000 \<and> \<not> is_high c \<and> \<not> is_low c \<and> scalar_text s"
  by (simp add: scalar_text_def)

lemma scalar_text_drop: "scalar_text s \<Longrightarrow> scalar_text (drop n s)"
  unfolding scalar_text_def list_all_iff by (blast dest: in_set_dropD)

lemma scalar_text_skip_ws: "scalar_text s \<Longrightarrow> scalar_text (skip_ws s)"
  unfolding scalar_text_def list_all_iff skip_ws_def by (blast dest: set_dropWhileD)

lemma hexval_bound: "hexval c = Some x \<Longrightarrow> x < 16"
  by (auto simp: hexval_def split: if_splits)

lemma hex_step: "a < m \<Longrightarrow> b < (16::nat) \<Longrightarrow> a * 16 + b < m * 16"
proof -
  assume "a < m" "b < 16"
  then have "Suc a \<le> m" "a * 16 + b < Suc a * 16" by simp_all
  moreover from \<open>Suc a \<le> m\<close> have "Suc a * 16 \<le> m * 16" by (rule mult_le_mono1)
  ultimately show ?thesis by (rule_tac less_le_trans)
qed

lemma decode_bound:
  assumes "decode_uXXXX t = Some u"
  shows "u < 0x10000"
proof -
  from assms obtain a b c d x y z w where
    "hexval a = Some x" "hexval b = Some y" "hexval c = Some z" "hexval d = Some w"
    and u: "u = ((x * 16 + y) * 16 + z) * 16 + w"
    by (auto simp: decode_uXXXX_def split: list.splits option.splits)
  then have "x < 16" "y < 16" "z < 16" "w < 16" by (auto dest: hexval_bound)
  then show ?thesis
    unfolding u using hex_step [OF hex_step [OF hex_step [of x 16 y], of z], of w] by simp
qed

lemma backslash_ascii: "backslash e = Some ch \<Longrightarrow> ch < 0x80"
  by (auto simp: backslash_def split: if_splits)

lemma str_reads_back_Cons:
  "str_reads_back (c # cs) \<longleftrightarrow>
     c < 0x110000 \<and> (is_high c \<longrightarrow> (case cs of [] \<Rightarrow> True | d # ds \<Rightarrow> \<not> is_low d))
     \<and> str_reads_back cs"
proof (cases cs)
  case Nil
  then show ?thesis by simp
next
  case (Cons d ds)
  have "str_reads_back (d # ds) \<Longrightarrow> d < 0x110000" by (cases ds) simp_all
  then show ?thesis unfolding Cons by auto
qed

lemma prepend_eq_Some:
  "prepend c r = Some (str, rest) \<longleftrightarrow> (\<exists>cs. r = Some (cs, rest) \<and> str = c # cs)"
  by (cases r) (auto simp: prepend_def)

lemma pair_bound:
  assumes "is_high u" and "is_low u2"
  shows "0x10000 + ((u - 0xd800) * 1024 + (u2 - 0xdc00)) < (0x110000::nat)"
    and "\<not> is_low (0x10000 + ((u - 0xd800) * 1024 + (u2 - 0xdc00)))"
    and "\<not> is_high (0x10000 + ((u - 0xd800) * 1024 + (u2 - 0xdc00)))"
proof -
  from assms have a: "u - 0xd800 < 1024" and b: "u2 - 0xdc00 < 1024"
    unfolding is_high_def is_low_def by linarith+
  from a have "Suc (u - 0xd800) \<le> 1024" by simp
  then have "Suc (u - 0xd800) * 1024 \<le> 1024 * 1024" by (rule mult_le_mono1)
  with b have "(u - 0xd800) * 1024 + (u2 - 0xdc00) < 1024 * 1024" by simp
  then show "0x10000 + ((u - 0xd800) * 1024 + (u2 - 0xdc00)) < (0x110000::nat)" by simp
  show "\<not> is_low (0x10000 + ((u - 0xd800) * 1024 + (u2 - 0xdc00)))"
    by (simp add: is_low_def)
  show "\<not> is_high (0x10000 + ((u - 0xd800) * 1024 + (u2 - 0xdc00)))"
    by (simp add: is_high_def)
qed

text \<open>
  The string read from a text of scalar values: a low surrogate of it comes from an
  escape, and follows no high surrogate.
\<close>

lemma scanstring_scalar:
  "scanstring s = Some (str, r) \<Longrightarrow> scalar_text s \<Longrightarrow>
   str_reads_back str \<and> scalar_text r \<and>
   (\<forall>c cs. str = c # cs \<longrightarrow> is_low c \<longrightarrow> (\<exists>t. s = 0x5c # 0x75 # t \<and> decode_uXXXX t = Some c))"
proof (induction "length s" arbitrary: s str r rule: less_induct)
  case less
  note IH = less.hyps and scan = less.prems(1) and sc = less.prems(2)
  from scan obtain c t where s: "s = c # t" by (cases s) auto
  from sc have sct: "scalar_text t" and c: "c < 0x110000" "\<not> is_high c" "\<not> is_low c"
    by (simp_all add: s scalar_text_Cons)
  show ?case
  proof (cases "c = 0x22")
    case True
    with scan sct show ?thesis by (auto simp: s scanstring_quote)
  next
    case quote: False
    show ?thesis
    proof (cases "c = 0x5c")
      case False
      with quote scan have "0x20 \<le> c" by (auto simp: s scanstring.simps(2) split: if_splits)
      with quote False scan have "prepend c (scanstring t) = Some (str, r)"
        by (simp add: s scanstring_plain)
      then obtain cs where t: "scanstring t = Some (cs, r)" and str: "str = c # cs"
        by (auto simp: prepend_eq_Some)
      from IH [OF _ t sct] have "str_reads_back cs" "scalar_text r" by (simp_all add: s)
      with c show ?thesis by (simp add: str str_reads_back_Cons)
    next
      case True
      with scan obtain e s' where t: "t = e # s'"
        by (cases t) (auto simp: s scanstring.simps(2))
      from sct have scs': "scalar_text s'" by (simp add: t scalar_text_Cons)
      show ?thesis
      proof (cases "e = 0x75")
        case False
        with scan True obtain ch where ch: "backslash e = Some ch"
          by (auto simp: s t scanstring.simps(2) split: option.splits)
        with scan True False have "prepend ch (scanstring s') = Some (str, r)"
          by (simp add: s t scanstring_backslash)
        then obtain cs where t': "scanstring s' = Some (cs, r)" and str: "str = ch # cs"
          by (auto simp: prepend_eq_Some)
        from IH [OF _ t' scs'] have "str_reads_back cs" "scalar_text r" by (simp_all add: s t)
        moreover from backslash_ascii [OF ch] have "ch < 0x110000" "\<not> is_high ch" "\<not> is_low ch"
          by (simp_all add: is_high_def is_low_def)
        ultimately show ?thesis by (simp add: str str_reads_back_Cons)
      next
        case u: True
        from scan obtain uni where uni: "decode_uXXXX s' = Some uni"
          by (auto simp: s t True u scanstring_u split: option.splits)
        from decode_bound [OF uni] have unib: "uni < 0x110000" by simp
        have sc4: "scalar_text (drop 4 s')" and sc10: "scalar_text (drop 10 s')"
          using scs' by (simp_all add: scalar_text_drop)
        show ?thesis
        proof (cases "is_high uni \<and> take 2 (drop 4 s') = [0x5c, 0x75]")
          case False
          with scan uni have "prepend uni (scanstring (drop 4 s')) = Some (str, r)"
            by (auto simp: s t True u scanstring_u is_high_def)
          then obtain cs where t': "scanstring (drop 4 s') = Some (cs, r)" and str: "str = uni # cs"
            by (auto simp: prepend_eq_Some)
          from IH [OF _ t' sc4] have cs: "str_reads_back cs" "scalar_text r"
            and low: "\<forall>d ds. cs = d # ds \<longrightarrow> is_low d
                \<longrightarrow> (\<exists>t. drop 4 s' = 0x5c # 0x75 # t \<and> decode_uXXXX t = Some d)"
            by (simp_all add: s t)
          have "\<not> is_low d" if "is_high uni" "cs = d # ds" for d ds
          proof
            assume "is_low d"
            with low that obtain t where "drop 4 s' = 0x5c # 0x75 # t" by blast
            then have "take 2 (drop 4 s') = [0x5c, 0x75]" by simp
            with False that show False by simp
          qed
          then have "is_high uni \<longrightarrow> (case cs of [] \<Rightarrow> True | d # ds \<Rightarrow> \<not> is_low d)"
            by (cases cs) auto
          with cs unib uni show ?thesis
            by (simp add: str str_reads_back_Cons s t True u)
        next
          case pair: True
          with scan uni obtain uni2 where uni2: "decode_uXXXX (drop 6 s') = Some uni2"
            by (auto simp: s t True u scanstring_u is_high_def split: option.splits)
          show ?thesis
          proof (cases "is_low uni2")
            case True
            let ?a = "0x10000 + ((uni - 0xd800) * 1024 + (uni2 - 0xdc00))"
            from scan uni uni2 pair True
            have "prepend ?a (scanstring (drop 10 s')) = Some (str, r)"
              by (auto simp: s t \<open>c = 0x5c\<close> u scanstring_u is_high_def is_low_def)
            then obtain cs where t': "scanstring (drop 10 s') = Some (cs, r)"
              and str: "str = ?a # cs"
              by (auto simp: prepend_eq_Some)
            from IH [OF _ t' sc10] have cs: "str_reads_back cs" "scalar_text r"
              by (simp_all add: s t)
            from pair True have hl: "is_high uni" "is_low uni2" by simp_all
            have "?a < 0x110000" "\<not> is_low ?a" "\<not> is_high ?a"
              by (rule pair_bound [OF hl])+
            with cs show ?thesis
              unfolding str str_reads_back_Cons by blast
          next
            case False
            from scan uni uni2 pair False
            have "prepend uni (scanstring (drop 4 s')) = Some (str, r)"
              by (auto simp: s t \<open>c = 0x5c\<close> u scanstring_u is_high_def is_low_def)
            then obtain cs where t': "scanstring (drop 4 s') = Some (cs, r)"
              and str: "str = uni # cs"
              by (auto simp: prepend_eq_Some)
            from IH [OF _ t' sc4] have cs: "str_reads_back cs" "scalar_text r"
              and low: "\<forall>d ds. cs = d # ds \<longrightarrow> is_low d
                  \<longrightarrow> (\<exists>t. drop 4 s' = 0x5c # 0x75 # t \<and> decode_uXXXX t = Some d)"
              by (simp_all add: s t)
            have "\<not> is_low d" if "cs = d # ds" for d ds
            proof
              assume d: "is_low d"
              with low that obtain t where t4: "drop 4 s' = 0x5c # 0x75 # t"
                and dt: "decode_uXXXX t = Some d" by blast
              have "drop 6 s' = drop 2 (drop 4 s')" by simp
              also have "\<dots> = t" unfolding t4 by simp
              finally have "decode_uXXXX (drop 6 s') = Some d" using dt by simp
              with uni2 False d show False by simp
            qed
            then have "is_high uni \<longrightarrow> (case cs of [] \<Rightarrow> True | d # ds \<Rightarrow> \<not> is_low d)"
              by (cases cs) auto
            with cs unib uni show ?thesis
              by (simp add: str str_reads_back_Cons s t \<open>c = 0x5c\<close> u)
          qed
        qed
      qed
    qed
  qed
qed

lemma scalar_text_rest: "scalar_text x \<Longrightarrow> skip_ws x = c # y \<Longrightarrow> scalar_text y"
  using scalar_text_skip_ws [of x] by (simp add: scalar_text_Cons)

lemma number_body_rest:
  assumes "(case s1 of
        [] \<Rightarrow> None
      | d # s2 \<Rightarrow>
          if \<not> is_digit d then None
          else
            let ip = (if d = 0x30 then [d] else d # takeWhile is_digit s2);
                s3 = drop (length ip) s1;
                frac = match_frac s3;
                s4 = drop (length frac) s3;
                ex = match_exp s4;
                s5 = drop (length ex) s4
            in Some (frac \<noteq> [] \<or> ex \<noteq> [], pre @ ip @ frac @ ex, s5)) = Some (fl, t, r)"
  shows "\<exists>k. r = drop k s1"
proof -
  from assms obtain d s2 where s1: "s1 = d # s2" and dig: "is_digit d"
    by (cases s1) (auto split: if_splits)
  define ip where "ip = (if d = 0x30 then [d] else d # takeWhile is_digit s2)"
  define s3 where "s3 = drop (length ip) s1"
  define frac where "frac = match_frac s3"
  define s4 where "s4 = drop (length frac) s3"
  define ex where "ex = match_exp s4"
  define s5 where "s5 = drop (length ex) s4"
  from assms have "r = s5"
    using dig by (cases "d = 0x30")
      (simp_all add: s1 is_digit_def Let_def s5_def ex_def s4_def frac_def s3_def ip_def
         add.assoc)
  then have "r = drop (length ex + (length frac + length ip)) s1"
    by (simp add: s5_def s4_def s3_def)
  then show ?thesis ..
qed

lemma match_number_rest:
  assumes "match_number s = Some (fl, t, r)"
  shows "\<exists>k. r = drop k s"
proof (cases "take 1 s = [0x2d]")
  case True
  then obtain s1 where s: "s = 0x2d # s1" by (cases s) auto
  from assms have "\<exists>k. r = drop k s1"
    unfolding s match_number_neg by (rule number_body_rest)
  then obtain k where "r = drop (Suc k) s" by (auto simp: s)
  then show ?thesis ..
next
  case False
  from assms show ?thesis
    unfolding match_number_pos [OF False] by (rule number_body_rest)
qed

lemma reads_back_list_iff: "reads_back_list h vs \<longleftrightarrow> (\<forall>v\<in>set vs. reads_back h v)"
  by (induction vs) auto

lemma reads_back_dict_iff:
  "reads_back_dict h d \<longleftrightarrow> (\<forall>(k, v)\<in>set d. str_reads_back k \<and> reads_back h v)"
  by (induction d) auto

lemma set_dict_of_pairs: "set (dict_of_pairs ps) \<subseteq> set ps"
proof -
  have "set (foldl (\<lambda>d (k, v). dict_set d k v) d ps) \<subseteq> set d \<union> set ps" for d :: "(pystr \<times> 'a) list"
  proof (induction ps arbitrary: d)
    case Nil
    show ?case by simp
  next
    case (Cons p ps)
    obtain k v where p: "p = (k, v)" by (cases p)
    from Cons [of "dict_set d k v"] set_dict_set [of d k v] show ?case
      by (auto simp: p)
  qed
  from this [of "[]"] show ?thesis by (simp add: dict_of_pairs_def)
qed

lemma distinct_dict_set: "distinct (map fst d) \<Longrightarrow> distinct (map fst (dict_set d k v))"
proof (cases "k \<in> set (map fst d)")
  case True
  assume "distinct (map fst d)"
  with True show ?thesis by (simp add: keys_dict_set)
next
  case False
  assume "distinct (map fst d)"
  with False show ?thesis by (simp add: dict_set_fresh)
qed

lemma distinct_dict_of_pairs: "distinct (map fst (dict_of_pairs ps))"
proof -
  have "distinct (map fst d) \<Longrightarrow> distinct (map fst (foldl (\<lambda>d (k, v). dict_set d k v) d ps))"
    for d :: "(pystr \<times> 'a) list"
  proof (induction ps arbitrary: d)
    case Nil
    then show ?case by simp
  next
    case (Cons p ps)
    obtain k v where p: "p = (k, v)" by (cases p)
    from Cons.IH [OF distinct_dict_set [OF Cons.prems, of k v]] show ?case by (simp add: p)
  qed
  from this [of "[]"] show ?thesis by (simp add: dict_of_pairs_def)
qed

lemma scan_once_SucE:
  assumes "scan_once h (Suc n) s = Some (v, r)"
  obtains (str) t str where "s = 0x22 # t" "scanstring t = Some (str, r)" "v = JStr str"
  | (empty_dict) t where "s = 0x7b # t" "skip_ws t = 0x7d # r" "v = JDict []"
  | (dict) t r0 pairs where "s = 0x7b # t" "skip_ws t = 0x22 # r0"
      "parse_members h n r0 = Some (pairs, r)" "v = JDict (dict_of_pairs pairs)"
  | (empty_list) t where "s = 0x5b # t" "skip_ws t = 0x5d # r" "v = JList []"
  | (list) t c' r0 vs where "s = 0x5b # t" "skip_ws t = c' # r0"
      "parse_items h n (c' # r0) = Some (vs, r)" "v = JList vs"
  | (atom) k where "r = drop k s"
      "v = JNull \<or> (\<exists>b. v = JBool b) \<or> (\<exists>i. v = JInt i) \<or> (\<exists>f. v = JFloat f)"
proof -
  from assms obtain c t where s: "s = c # t" by (cases s) (auto simp: scan_once_Suc)
  show thesis
  proof (cases "c = 0x22 \<or> c = 0x7b \<or> c = 0x5b")
    case True
    with assms s str empty_dict dict empty_list list show thesis
      by (auto simp: scan_once_Suc split: list.splits if_splits option.splits)
  next
    case False
    show thesis
    proof (cases "match_number s")
      case None
      with assms s False atom [of 4] atom [of 5] atom [of 3] atom [of 8] atom [of 9]
      show thesis
        by (auto simp: scan_once_Suc split: if_splits)
    next
      case (Some x)
      obtain fl lexeme r' where x: "x = (fl, lexeme, r')" by (cases x)
      from match_number_rest [OF Some [unfolded x]] obtain k where "r' = drop k s" by blast
      with assms s False Some x atom [of 4] atom [of 5] atom [of k]
      show thesis
        by (auto simp: scan_once_Suc split: if_splits)
    qed
  qed
qed

lemma parse_items_SucE:
  assumes "parse_items h (Suc n) s = Some (vs, r)"
  obtains (last) v r0 where "scan_once h n s = Some (v, r0)" "skip_ws r0 = 0x5d # r" "vs = [v]"
  | (more) v r0 r' vs' where "scan_once h n s = Some (v, r0)" "skip_ws r0 = 0x2c # r'"
      "parse_items h n (skip_ws r') = Some (vs', r)" "vs = v # vs'"
  using assms
  by (auto simp: parse_items.simps(2) split: list.splits if_splits option.splits)

lemma parse_members_SucE:
  assumes "parse_members h (Suc n) s = Some (ps, r)"
  obtains (last) key r0 r1 v r2 where "scanstring s = Some (key, r0)" "skip_ws r0 = 0x3a # r1"
      "scan_once h n (skip_ws r1) = Some (v, r2)" "skip_ws r2 = 0x7d # r" "ps = [(key, v)]"
  | (more) key r0 r1 v r2 r3 r4 kvs where "scanstring s = Some (key, r0)"
      "skip_ws r0 = 0x3a # r1" "scan_once h n (skip_ws r1) = Some (v, r2)"
      "skip_ws r2 = 0x2c # r3" "skip_ws r3 = 0x22 # r4"
      "parse_members h n r4 = Some (kvs, r)" "ps = (key, v) # kvs"
  using assms
  by (auto simp: parse_members.simps(2) split: list.splits if_splits option.splits)

lemma parse_scalar:
  "(\<forall>s v r. scan_once h n s = Some (v, r) \<longrightarrow> scalar_text s \<longrightarrow>
      scalar_text r \<and> ((\<forall>f\<in>set_json v. float_reads_back h f) \<longrightarrow> reads_back h v))
 \<and> (\<forall>s vs r. parse_items h n s = Some (vs, r) \<longrightarrow> scalar_text s \<longrightarrow>
      scalar_text r
      \<and> (\<forall>v\<in>set vs. (\<forall>f\<in>set_json v. float_reads_back h f) \<longrightarrow> reads_back h v))
 \<and> (\<forall>s ps r. parse_members h n s = Some (ps, r) \<longrightarrow> scalar_text s \<longrightarrow>
      scalar_text r
      \<and> (\<forall>p\<in>set ps. str_reads_back (fst p)
            \<and> ((\<forall>f\<in>set_json (snd p). float_reads_back h f) \<longrightarrow> reads_back h (snd p))))"
proof (induction n)
  case 0
  show ?case by simp
next
  case (Suc n)
  then have IH1: "\<And>s v r. scan_once h n s = Some (v, r) \<Longrightarrow> scalar_text s \<Longrightarrow>
      scalar_text r \<and> ((\<forall>f\<in>set_json v. float_reads_back h f) \<longrightarrow> reads_back h v)"
    and IH2: "\<And>s vs r. parse_items h n s = Some (vs, r) \<Longrightarrow> scalar_text s \<Longrightarrow>
      scalar_text r
      \<and> (\<forall>v\<in>set vs. (\<forall>f\<in>set_json v. float_reads_back h f) \<longrightarrow> reads_back h v)"
    and IH3: "\<And>s ps r. parse_members h n s = Some (ps, r) \<Longrightarrow> scalar_text s \<Longrightarrow>
      scalar_text r
      \<and> (\<forall>p\<in>set ps. str_reads_back (fst p)
            \<and> ((\<forall>f\<in>set_json (snd p). float_reads_back h f) \<longrightarrow> reads_back h (snd p)))"
    by blast+
  have 1: "scalar_text r \<and> ((\<forall>f\<in>set_json v. float_reads_back h f) \<longrightarrow> reads_back h v)"
    if scan: "scan_once h (Suc n) s = Some (v, r)" and sc: "scalar_text s" for s v r
    using scan
  proof (cases rule: scan_once_SucE)
    case (str t str)
    from sc have "scalar_text t" by (simp add: str(1) scalar_text_Cons)
    from scanstring_scalar [OF str(2) this] show ?thesis by (simp add: str(3))
  next
    case (empty_dict t)
    from sc have "scalar_text t" by (simp add: empty_dict(1) scalar_text_Cons)
    from scalar_text_rest [OF this empty_dict(2)] show ?thesis by (simp add: empty_dict(3))
  next
    case (dict t r0 pairs)
    from sc have "scalar_text t" by (simp add: dict(1) scalar_text_Cons)
    from scalar_text_rest [OF this dict(2)] have "scalar_text r0" .
    from IH3 [OF dict(3) this] have r: "scalar_text r"
      and ps: "\<forall>p\<in>set pairs. str_reads_back (fst p)
            \<and> ((\<forall>f\<in>set_json (snd p). float_reads_back h f) \<longrightarrow> reads_back h (snd p))"
      by simp_all
    have "reads_back h (JDict (dict_of_pairs pairs))"
      if fl: "\<forall>f\<in>set_json (JDict (dict_of_pairs pairs)). float_reads_back h f"
    proof -
      have "str_reads_back k \<and> reads_back h w" if kw: "(k, w) \<in> set (dict_of_pairs pairs)" for k w
      proof -
        from kw set_dict_of_pairs have "(k, w) \<in> set pairs" by blast
        with ps have k: "str_reads_back k"
          and w: "(\<forall>f\<in>set_json w. float_reads_back h f) \<longrightarrow> reads_back h w"
          by auto
        from kw fl have "\<forall>f\<in>set_json w. float_reads_back h f"
          by (force simp: snds_eq)
        with k w show ?thesis by simp
      qed
      then show ?thesis
        by (auto simp: reads_back_dict_iff distinct_dict_of_pairs)
    qed
    with r show ?thesis by (simp add: dict(4))
  next
    case (empty_list t)
    from sc have "scalar_text t" by (simp add: empty_list(1) scalar_text_Cons)
    from scalar_text_rest [OF this empty_list(2)] show ?thesis by (simp add: empty_list(3))
  next
    case (list t c' r0 vs)
    from sc have "scalar_text t" by (simp add: list(1) scalar_text_Cons)
    from scalar_text_skip_ws [OF this] have "scalar_text (c' # r0)" by (simp add: list(2))
    from IH2 [OF list(3) this] show ?thesis
      by (auto simp: list(4) reads_back_list_iff)
  next
    case (atom k)
    from sc have "scalar_text r" unfolding atom(1) by (rule scalar_text_drop)
    with atom(2) show ?thesis by auto
  qed
  have 2: "scalar_text r
      \<and> (\<forall>v\<in>set vs. (\<forall>f\<in>set_json v. float_reads_back h f) \<longrightarrow> reads_back h v)"
    if scan: "parse_items h (Suc n) s = Some (vs, r)" and sc: "scalar_text s" for s vs r
    using scan
  proof (cases rule: parse_items_SucE)
    case (last v r0)
    from IH1 [OF last(1) sc] have "scalar_text r0"
      and v: "(\<forall>f\<in>set_json v. float_reads_back h f) \<longrightarrow> reads_back h v" by simp_all
    from scalar_text_rest [OF this(1) last(2)] v show ?thesis by (simp add: last(3))
  next
    case (more v r0 r' vs')
    from IH1 [OF more(1) sc] have "scalar_text r0"
      and v: "(\<forall>f\<in>set_json v. float_reads_back h f) \<longrightarrow> reads_back h v" by simp_all
    from scalar_text_rest [OF this(1) more(2)] have "scalar_text r'" .
    from IH2 [OF more(3) scalar_text_skip_ws [OF this]] v show ?thesis by (simp add: more(4))
  qed
  have 3: "scalar_text r
      \<and> (\<forall>p\<in>set ps. str_reads_back (fst p)
            \<and> ((\<forall>f\<in>set_json (snd p). float_reads_back h f) \<longrightarrow> reads_back h (snd p)))"
    if scan: "parse_members h (Suc n) s = Some (ps, r)" and sc: "scalar_text s" for s ps r
    using scan
  proof (cases rule: parse_members_SucE)
    case (last key r0 r1 v r2)
    from scanstring_scalar [OF last(1) sc] have key: "str_reads_back key" and "scalar_text r0"
      by simp_all
    from scalar_text_rest [OF this(2) last(2)] have "scalar_text r1" .
    from IH1 [OF last(3) scalar_text_skip_ws [OF this]] have "scalar_text r2"
      and v: "(\<forall>f\<in>set_json v. float_reads_back h f) \<longrightarrow> reads_back h v" by simp_all
    from scalar_text_rest [OF this(1) last(4)] key v show ?thesis by (simp add: last(5))
  next
    case (more key r0 r1 v r2 r3 r4 kvs)
    from scanstring_scalar [OF more(1) sc] have key: "str_reads_back key" and "scalar_text r0"
      by simp_all
    from scalar_text_rest [OF this(2) more(2)] have "scalar_text r1" .
    from IH1 [OF more(3) scalar_text_skip_ws [OF this]] have "scalar_text r2"
      and v: "(\<forall>f\<in>set_json v. float_reads_back h f) \<longrightarrow> reads_back h v" by simp_all
    from scalar_text_rest [OF this(1) more(4)] have "scalar_text r3" .
    from scalar_text_rest [OF this more(5)] have "scalar_text r4" .
    from IH3 [OF more(6) this] key v show ?thesis by (simp add: more(7))
  qed
  from 1 2 3 show ?case by blast
qed

text \<open>
  What \<^verbatim>\<open>json.loads\<close> makes of a text of scalar values is read back from its
  serialization, when its floats are.
\<close>

lemma loads_reads_back:
  assumes "json_loads h s = Some v" and "scalar_text s"
    and "\<forall>f\<in>set_json v. float_reads_back h f"
  shows "reads_back h v"
proof -
  from assms(1) obtain r where "scan_once h (Suc (length s)) (skip_ws s) = Some (v, r)"
    by (auto simp: json_loads_def split: option.splits if_splits)
  with parse_scalar [of h "Suc (length s)"] scalar_text_skip_ws [OF assms(2)] assms(3)
  show ?thesis by blast
qed

section \<open>Objects: what is trimmed and what is kept\<close>

lemma slice_to_cases:
  "slice_to n v = Inr w \<longleftrightarrow>
     (case v of JList xs \<Rightarrow> w = JList (take n xs) | JStr t \<Rightarrow> w = JStr (take n t) | _ \<Rightarrow> False)"
  by (cases v) auto










section \<open>Trimming twice\<close>

text \<open>What a statement of the trimmer has set, it sets again to the same value.\<close>

lemma dict_set_same: "map_of d k = Some v \<Longrightarrow> dict_set d k v = d"
  by (induction d) (auto split: if_splits)

lemma slice_to_idem: "slice_to n v = Inr w \<Longrightarrow> slice_to n w = Inr w"
  by (cases v) auto

lemma trim_field_fixed:
  assumes "trim_field key limit data = Inr data"
    and "trim_field key' limit' data = Inr data'" and "key' \<noteq> key"
  shows "trim_field key limit data' = Inr data'"
proof (cases data)
  case (JDict d)
  show ?thesis
  proof (cases "map_of d key'")
    case None
    with JDict assms(2) have "data' = data" by (simp add: trim_field_dict)
    with assms(1) show ?thesis by simp
  next
    case (Some v')
    with JDict assms(2) obtain w' where d': "data' = JDict (dict_set d key' w')"
      by (auto simp: trim_field_dict split: sum.splits)
    have same: "map_of (dict_set d key' w') key = map_of d key"
      using assms(3) by (simp add: map_of_dict_set)
    show ?thesis
    proof (cases "map_of d key")
      case None
      with same show ?thesis by (simp add: d' trim_field_dict)
    next
      case (Some v)
      with JDict assms(1) obtain w where w: "slice_to limit v = Inr w"
        and dw: "dict_set d key w = d"
        by (auto simp: trim_field_dict split: sum.splits)
      have "map_of (dict_set d key w) key = Some w" by (simp add: map_of_dict_set)
      with dw Some have "w = v" by simp
      with w have "slice_to limit v = Inr v" by simp
      moreover have "map_of (dict_set d key' w') key = Some v" using same Some by simp
      ultimately show ?thesis
        by (simp add: d' trim_field_dict dict_set_same)
    qed
  qed
qed (use assms in \<open>auto simp: trim_field_list trim_field_str trim_field_scalar split: if_splits\<close>)

lemma trim_field_idem:
  assumes "trim_field key limit data = Inr data'"
  shows "trim_field key limit data' = Inr data'"
proof (cases data)
  case (JDict d)
  show ?thesis
  proof (cases "map_of d key")
    case None
    with JDict assms show ?thesis by (auto simp: trim_field_dict)
  next
    case (Some v)
    with JDict assms obtain w where w: "slice_to limit v = Inr w"
      and d': "data' = JDict (dict_set d key w)"
      by (auto simp: trim_field_dict split: sum.splits)
    have "map_of (dict_set d key w) key = Some w" by (simp add: map_of_dict_set)
    with slice_to_idem [OF w] show ?thesis
      by (simp add: d' trim_field_dict dict_set_same)
  qed
qed (use assms in \<open>auto simp: trim_field_list trim_field_str trim_field_scalar split: if_splits\<close>)

text \<open>
  C6, as the claim states it, fails. The first key of this object is a high surrogate
  followed by the escape \<^verbatim>\<open>\ude00\<close>, the second key is the escaped pair
  \<^verbatim>\<open>\ud83d\ude00\<close>: the parsed object has two keys, the first output prints both as
  \<^verbatim>\<open>\ud83d\ude00\<close>, and trimming that output gives an object with one key.
\<close>

theorem trim_twice_differs:
  "json_loads text_floats
      [0x7b, 0x22, 0xd83d, 0x5c, 0x75, 0x64, 0x65, 0x30, 0x30, 0x22, 0x3a, 0x31, 0x2c,
       0x22, 0x5c, 0x75, 0x64, 0x38, 0x33, 0x64, 0x5c, 0x75, 0x64, 0x65, 0x30, 0x30,
       0x22, 0x3a, 0x32, 0x7d]
     = Some (JDict [([0xd83d, 0xde00], JInt 1), ([0x1f600], JInt 2)])
   \<and> trim_financial_reports text_floats
      [0x7b, 0x22, 0xd83d, 0x5c, 0x75, 0x64, 0x65, 0x30, 0x30, 0x22, 0x3a, 0x31, 0x2c,
       0x22, 0x5c, 0x75, 0x64, 0x38, 0x33, 0x64, 0x5c, 0x75, 0x64, 0x65, 0x30, 0x30,
       0x22, 0x3a, 0x32, 0x7d]
     = Inr
      [0x7b, 0x0a, 0x20, 0x20, 0x22, 0x5c, 0x75, 0x64, 0x38, 0x33, 0x64, 0x5c, 0x75,
       0x64, 0x65, 0x30, 0x30, 0x22, 0x3a, 0x20, 0x31, 0x2c, 0x0a, 0x20, 0x20, 0x22,
       0x5c, 0x75, 0x64, 0x38, 0x33, 0x64, 0x5c, 0x75, 0x64, 0x65, 0x30, 0x30, 0x22,
       0x3a, 0x20, 0x32, 0x0a, 0x7d]
   \<and> trim_financial_reports text_floats
      [0x7b, 0x0a, 0x20, 0x20, 0x22, 0x5c, 0x75, 0x64, 0x38, 0x33, 0x64, 0x5c, 0x75,
       0x64, 0x65, 0x30, 0x30, 0x22, 0x3a, 0x20, 0x31, 0x2c, 0x0a, 0x20, 0x20, 0x22,
       0x5c, 0x75, 0x64, 0x38, 0x33, 0x64, 0x5c, 0x75, 0x64, 0x65, 0x30, 0x30, 0x22,
       0x3a, 0x20, 0x32, 0x0a, 0x7d]
     = Inr
      [0x7b, 0x0a, 0x20, 0x20, 0x22, 0x5c, 0x75, 0x64, 0x38, 0x33, 0x64, 0x5c, 0x75,
       0x64, 0x65, 0x30, 0x30, 0x22, 0x3a, 0x20, 0x32, 0x0a, 0x7d]
   \<and> [0x7b, 0x0a, 0x20, 0x20, 0x22, 0x5c, 0x75, 0x64, 0x38, 0x33, 0x64, 0x5c, 0x75,
      0x64, 0x65, 0x30, 0x30, 0x22, 0x3a, 0x20, 0x32, 0x0a, 0x7d]
     \<noteq>
      [0x7b, 0x0a, 0x20, 0x20, 0x22, 0x5c, 0x75, 0x64, 0x38, 0x33, 0x64, 0x5c, 0x75,
       0x64, 0x65, 0x30, 0x30, 0x22, 0x3a, 0x20, 0x31, 0x2c, 0x0a, 0x20, 0x20, 0x22,
       0x5c, 0x75, 0x64, 0x38, 0x33, 0x64, 0x5c, 0x75, 0x64, 0x65, 0x30, 0x30, 0x22,
       0x3a, 0x20, 0x32, 0x0a, 0x7d :: nat]"
proof -
  have parsed: "json_loads text_floats
      [0x7b, 0x22, 0xd83d, 0x5c, 0x75, 0x64, 0x65, 0x30, 0x30, 0x22, 0x3a, 0x31, 0x2c,
       0x22, 0x5c, 0x75, 0x64, 0x38, 0x33, 0x64, 0x5c, 0x75, 0x64, 0x65, 0x30, 0x30,
       0x22, 0x3a, 0x32, 0x7d]
     = Some (JDict [([0xd83d, 0xde00], JInt 1), ([0x1f600], JInt 2)])"
    by (simp add: json_loads_def skip_ws_def is_ws_def scan_once_Suc parse_members.simps(2)
          scanstring.simps(2) decode_uXXXX_def hexval_def prepend_def backslash_def
          match_number_def match_frac_def match_exp_def is_digit_def int_of_text_def
          nat_of_digits_def dict_of_pairs_def py_def Let_def)
  have parsed2: "json_loads text_floats
      [0x7b, 0x0a, 0x20, 0x20, 0x22, 0x5c, 0x75, 0x64, 0x38, 0x33, 0x64, 0x5c, 0x75,
       0x64, 0x65, 0x30, 0x30, 0x22, 0x3a, 0x20, 0x31, 0x2c, 0x0a, 0x20, 0x20, 0x22,
       0x5c, 0x75, 0x64, 0x38, 0x33, 0x64, 0x5c, 0x75, 0x64, 0x65, 0x30, 0x30, 0x22,
       0x3a, 0x20, 0x32, 0x0a, 0x7d]
     = Some (JDict [([0x1f600], JInt 2)])"
    by (simp add: json_loads_def skip_ws_def is_ws_def scan_once_Suc parse_members.simps(2)
          scanstring.simps(2) decode_uXXXX_def hexval_def prepend_def backslash_def
          match_number_def match_frac_def match_exp_def is_digit_def int_of_text_def
          nat_of_digits_def dict_of_pairs_def py_def Let_def)
  have out: "trim_financial_reports text_floats
      [0x7b, 0x22, 0xd83d, 0x5c, 0x75, 0x64, 0x65, 0x30, 0x30, 0x22, 0x3a, 0x31, 0x2c,
       0x22, 0x5c, 0x75, 0x64, 0x38, 0x33, 0x64, 0x5c, 0x75, 0x64, 0x65, 0x30, 0x30,
       0x22, 0x3a, 0x32, 0x7d]
     = Inr
      [0x7b, 0x0a, 0x20, 0x20, 0x22, 0x5c, 0x75, 0x64, 0x38, 0x33, 0x64, 0x5c, 0x75,
       0x64, 0x65, 0x30, 0x30, 0x22, 0x3a, 0x20, 0x31, 0x2c, 0x0a, 0x20, 0x20, 0x22,
       0x5c, 0x75, 0x64, 0x38, 0x33, 0x64, 0x5c, 0x75, 0x64, 0x65, 0x30, 0x30, 0x22,
       0x3a, 0x20, 0x32, 0x0a, 0x7d]"
    unfolding trim_financial_reports_def parsed
    by (simp add: trim_field_dict json_dumps_def py_def
          encode_basestring_ascii_def escape_char_def hex4_def hexdigit_def newline_indent_def
          int_repr_def digits_small numeral_2_eq_2)
  have out2: "trim_financial_reports text_floats
      [0x7b, 0x0a, 0x20, 0x20, 0x22, 0x5c, 0x75, 0x64, 0x38, 0x33, 0x64, 0x5c, 0x75,
       0x64, 0x65, 0x30, 0x30, 0x22, 0x3a, 0x20, 0x31, 0x2c, 0x0a, 0x20, 0x20, 0x22,
       0x5c, 0x75, 0x64, 0x38, 0x33, 0x64, 0x5c, 0x75, 0x64, 0x65, 0x30, 0x30, 0x22,
       0x3a, 0x20, 0x32, 0x0a, 0x7d]
     = Inr
      [0x7b, 0x0a, 0x20, 0x20, 0x22, 0x5c, 0x75, 0x64, 0x38, 0x33, 0x64, 0x5c, 0x75,
       0x64, 0x65, 0x30, 0x30, 0x22, 0x3a, 0x20, 0x32, 0x0a, 0x7d]"
    unfolding trim_financial_reports_def parsed2
    by (simp add: trim_field_dict json_dumps_def py_def
          encode_basestring_ascii_def escape_char_def hex4_def hexdigit_def newline_indent_def
          int_repr_def digits_small numeral_2_eq_2)
  have differ: "[0x7b, 0x0a, 0x20, 0x20, 0x22, 0x5c, 0x75, 0x64, 0x38, 0x33, 0x64, 0x5c, 0x75,
       0x64, 0x65, 0x30, 0x30, 0x22, 0x3a, 0x20, 0x32, 0x0a, 0x7d]
     \<noteq>
      [0x7b, 0x0a, 0x20, 0x20, 0x22, 0x5c, 0x75, 0x64, 0x38, 0x33, 0x64, 0x5c, 0x75,
       0x64, 0x65, 0x30, 0x30, 0x22, 0x3a, 0x20, 0x31, 0x2c, 0x0a, 0x20, 0x20, 0x22,
       0x5c, 0x75, 0x64, 0x38, 0x33, 0x64, 0x5c, 0x75, 0x64, 0x65, 0x30, 0x30, 0x22,
       0x3a, 0x20, 0x32, 0x0a, 0x7d :: nat]"
    by simp
  from parsed out out2 differ show ?thesis by (intro conjI)
qed

text \<open>
  C6, amended. When the input is a text of Unicode scalar values, and the floats of the
  value it parses to, if it parses, are printed as the text that denotes them
  (\<^verbatim>\<open>float.__repr__\<close> does), trimming the result of the trimmer again gives that
  result; when the first call raises, there is no result to trim.
\<close>

theorem trim_idempotent:
  assumes "scalar_text s"
    and "case json_loads h s of
           None \<Rightarrow> True
         | Some data \<Rightarrow> \<forall>f\<in>set_json data. float_reads_back h f"
  shows "(case trim_financial_reports h s of
            Inl e \<Rightarrow> Inl e
          | Inr out \<Rightarrow> trim_financial_reports h out)
       = trim_financial_reports h s"
proof (cases "json_loads h s")
  case None
  then show ?thesis by (simp add: trim_financial_reports_def)
next
  case (Some data)
  with assms(2) have "\<forall>f\<in>set_json data. float_reads_back h f" by simp
  with Some assms(1) have rb: "reads_back h data" by (rule loads_reads_back)
  let ?A = "py ''annualReports''" and ?Q = "py ''quarterlyReports''"
  show ?thesis
  proof (cases "trim_financial_reports h s")
    case (Inl e)
    then show ?thesis by simp
  next
    case (Inr out)
    with Some obtain d1 d2 where
      t1: "trim_field ?A MAX_ANNUAL_REPORTS data = Inr d1" and
      t2: "trim_field ?Q MAX_QUARTERLY_REPORTS d1 = Inr d2" and
      out: "out = json_dumps h d2"
      by (auto simp: trim_financial_reports_def split: sum.splits)
    have "reads_back h d2"
      using reads_back_trim_field [OF reads_back_trim_field [OF rb t1] t2] .
    then have parsed: "json_loads h (json_dumps h d2) = Some d2" by (rule loads_dumps)
    have a1: "trim_field ?A MAX_ANNUAL_REPORTS d1 = Inr d1" by (rule trim_field_idem [OF t1])
    have a2: "trim_field ?A MAX_ANNUAL_REPORTS d2 = Inr d2"
      using trim_field_fixed [OF a1 t2] names_differ by simp
    have q2: "trim_field ?Q MAX_QUARTERLY_REPORTS d2 = Inr d2" by (rule trim_field_idem [OF t2])
    have "trim_financial_reports h out = Inr out"
      unfolding out by (simp add: trim_financial_reports_def parsed a2 q2)
    with Inr show ?thesis by simp
  qed
qed

theorem trim_idempotent_witness:
  "json_loads text_floats (py ''{\"annualReports\": [1, 2, 3]}'')
     = Some (JDict [(py ''annualReports'', JList [JInt 1, JInt 2, JInt 3])])
   \<and> (case trim_financial_reports text_floats (py ''{\"annualReports\": [1, 2, 3]}'') of
            Inl e \<Rightarrow> Inl e
          | Inr out \<Rightarrow> trim_financial_reports text_floats out)
       = trim_financial_reports text_floats (py ''{\"annualReports\": [1, 2, 3]}'')"
proof -
  have parsed: "json_loads text_floats (py ''{\"annualReports\": [1, 2, 3]}'')
     = Some (JDict [(py ''annualReports'', JList [JInt 1, JInt 2, JInt 3])])"
    by code_simp
  have sc: "scalar_text (py ''{\"annualReports\": [1, 2, 3]}'')"
    by (simp add: scalar_text_def py_def is_high_def is_low_def)
  have "case json_loads text_floats (py ''{\"annualReports\": [1, 2, 3]}'') of
      None \<Rightarrow> True | Some data \<Rightarrow> \<forall>f\<in>set_json data. float_reads_back text_floats f"
    unfolding parsed by (simp add: snds_eq)
  from parsed trim_idempotent [OF sc this] show ?thesis by (rule conjI)
qed

end
